theory Spec2Isabelle
  imports
    Complex_Main
    "HOL-Library.Product_Lexorder"
    "HOL-Library.List_Lexorder"
    "HOL-Library.Char_ord"
    "HOL-Library.While_Combinator"
    "HOL-Library.Multiset"
begin

section \<open>Process model (process.py)\<close>

text \<open>
  Times are Python numbers (ints and floats); they are modelled as exact rationals, so
  floating-point round-off is outside the model. Process ids are strings, compared as
  Python compares them (lexicographically by character code).
\<close>

record Process =
  pid :: string
  arrival_time :: rat
  burst_time :: rat
  priority :: "int option"
  remaining_time :: rat

text \<open>
  \<^verbatim>\<open>Process(pid, arrival_time, burst_time, priority)\<close>: the dataclass constructor as
  the algorithms call it, with \<^verbatim>\<open>__post_init__\<close> setting the remaining time to the
  burst time.
\<close>

definition new_Process :: "string \<Rightarrow> rat \<Rightarrow> rat \<Rightarrow> int option \<Rightarrow> Process" where
  "new_Process i a b pr =
     \<lparr>pid = i, arrival_time = a, burst_time = b, priority = pr, remaining_time = b\<rparr>"

definition is_completed :: "Process \<Rightarrow> bool" where
  "is_completed p \<longleftrightarrow> remaining_time p \<le> 0"

text \<open>
  \<^verbatim>\<open>execute\<close> returns the time actually run and decrements the remaining time of the
  object; in this value-level model the updated object is returned beside it.
\<close>

definition execute :: "Process \<Rightarrow> rat \<Rightarrow> rat \<times> Process" where
  "execute p time_quantum =
     (let execution_time = min time_quantum (remaining_time p)
      in (execution_time, p\<lparr>remaining_time := remaining_time p - execution_time\<rparr>))"

section \<open>Results and errors (scheduling\_algorithms.py)\<close>

type_synonym entry = "string \<times> rat \<times> rat"

text \<open>
  The display name is a fixed string, except for Round Robin, whose f-string embeds the
  quantum.
\<close>

datatype label = Name string | RoundRobinQuantum rat

record SchedulingResult =
  schedule :: "entry list"
  metrics :: "string \<rightharpoonup> rat"
  algorithm_name :: label

text \<open>
  The exceptions the engine can raise: the two \<^verbatim>\<open>ValueError\<close>s it raises itself, and
  the ones Python raises for it (\<^verbatim>\<open>None.execute\<close>, \<^verbatim>\<open>min\<close> of an empty list,
  \<^verbatim>\<open>popleft\<close> on an empty deque).
\<close>

datatype error =
    MissingPriority string
  | InvalidQuantum
  | NoneHasNoExecute
  | MinOfEmpty
  | PopFromEmpty

datatype status = Running | Broke | Raised error

definition IDLE :: string where
  "IDLE = ''IDLE''"

subsection \<open>calculate\_metrics\<close>

text \<open>
  \<^verbatim>\<open>round(x, 2)\<close>: to the nearest hundredth, a tie going to the even neighbour.
\<close>

definition round_half_even :: "rat \<Rightarrow> int" where
  "round_half_even x =
     (let f = \<lfloor>x\<rfloor>; d = x - of_int f
      in if d < 1 / 2 then f else if 1 / 2 < d then f + 1 else if even f then f else f + 1)"

definition round2 :: "rat \<Rightarrow> rat" where
  "round2 x = of_int (round_half_even (x * 100)) / 100"

definition completion_times :: "entry list \<Rightarrow> (string \<rightharpoonup> rat)" where
  "completion_times sched =
     foldl (\<lambda>m (p, start_time, end_time). if p \<noteq> IDLE then m(p \<mapsto> end_time) else m)
       Map.empty sched"

definition turnaround_times :: "(string \<rightharpoonup> rat) \<Rightarrow> Process list \<Rightarrow> rat list" where
  "turnaround_times ct processes =
     map (\<lambda>p. the (ct (pid p)) - arrival_time p) (filter (\<lambda>p. ct (pid p) \<noteq> None) processes)"

definition waiting_times :: "(string \<rightharpoonup> rat) \<Rightarrow> Process list \<Rightarrow> rat list" where
  "waiting_times ct processes =
     map (\<lambda>p. (the (ct (pid p)) - arrival_time p) - burst_time p)
       (filter (\<lambda>p. ct (pid p) \<noteq> None) processes)"

definition average :: "rat list \<Rightarrow> rat" where
  "average xs = (if xs \<noteq> [] then sum_list xs / of_nat (length xs) else 0)"

definition total_time :: "entry list \<Rightarrow> rat" where
  "total_time sched =
     (case map (\<lambda>(p, start_time, end_time). end_time) sched of
        [] \<Rightarrow> 0
      | e # es \<Rightarrow> foldl max e es)"

definition cpu_time :: "entry list \<Rightarrow> rat" where
  "cpu_time sched =
     sum_list (map (\<lambda>(p, start_time, end_time). end_time - start_time)
                 (filter (\<lambda>(p, start_time, end_time). p \<noteq> IDLE) sched))"

definition cpu_utilization :: "entry list \<Rightarrow> rat" where
  "cpu_utilization sched =
     (if 0 < total_time sched then cpu_time sched / total_time sched * 100 else 0)"

definition calculate_metrics :: "Process list \<Rightarrow> entry list \<Rightarrow> (string \<rightharpoonup> rat)" where
  "calculate_metrics processes sched =
     (let ct = completion_times sched
      in [''average_turnaround_time'' \<mapsto> round2 (average (turnaround_times ct processes)),
          ''average_waiting_time'' \<mapsto> round2 (average (waiting_times ct processes)),
          ''cpu_utilization'' \<mapsto> round2 (cpu_utilization sched),
          ''total_processes'' \<mapsto> of_nat (length processes),
          ''total_time'' \<mapsto> round2 (total_time sched)])"

definition finish :: "Process list \<Rightarrow> label \<Rightarrow> status \<Rightarrow> entry list \<Rightarrow> error + SchedulingResult" where
  "finish processes name st sched =
     (case st of
        Raised e \<Rightarrow> Inl e
      | _ \<Rightarrow> Inr \<lparr>schedule = sched, metrics = calculate_metrics processes sched,
                 algorithm_name = name\<rparr>)"

definition empty_result :: "string \<Rightarrow> SchedulingResult" where
  "empty_result name = \<lparr>schedule = [], metrics = Map.empty, algorithm_name = Name name\<rparr>"

subsection \<open>Shared pieces of the six algorithms\<close>

text \<open>The working copies every algorithm but FCFS makes of its input.\<close>

definition copy_process :: "Process \<Rightarrow> Process" where
  "copy_process p = new_Process (pid p) (arrival_time p) (burst_time p) (priority p)"

definition copy_processes :: "Process list \<Rightarrow> Process list" where
  "copy_processes processes = map copy_process processes"

definition by_arrival :: "Process \<Rightarrow> rat \<times> string" where
  "by_arrival p = (arrival_time p, pid p)"

text \<open>\<^verbatim>\<open>min(xs, key=f)\<close> on a non-empty list: the first element whose key is least.\<close>

fun min_by :: "('a \<Rightarrow> 'k::linorder) \<Rightarrow> 'a \<Rightarrow> 'a list \<Rightarrow> 'a" where
  "min_by f best [] = best"
| "min_by f best (x # xs) = min_by f (if f x < f best then x else best) xs"

text \<open>
  The schedule update shared by the three preemptive algorithms: a run that continues the
  last entry (same pid, contiguous in time) extends it, any other run is a new entry.
\<close>

definition record_run :: "entry list \<Rightarrow> string \<Rightarrow> rat \<Rightarrow> rat \<Rightarrow> entry list" where
  "record_run sched p start_time end_time =
     (if sched = [] \<or> fst (last sched) \<noteq> p \<or> snd (snd (last sched)) \<noteq> start_time
      then sched @ [(p, start_time, end_time)]
      else butlast sched @ [(p, fst (snd (last sched)), end_time)])"

text \<open>
  The admission loop \<^verbatim>\<open>while i < len(processes_copy) and
  processes_copy[i].arrival_time <= current_time\<close>; \<open>push\<close> is what the caller does with
  an admitted process (append to the deque, push on the heap).
\<close>

function admit :: "('q \<Rightarrow> Process \<Rightarrow> 'q) \<Rightarrow> Process list \<Rightarrow> rat \<Rightarrow> nat \<Rightarrow> 'q \<Rightarrow> 'q \<times> nat" where
  "admit push procs t i q =
     (if i < length procs \<and> arrival_time (procs ! i) \<le> t
      then admit push procs t (Suc i) (push q (procs ! i))
      else (q, i))"
  by pat_completeness auto
termination
  by (relation "measure (\<lambda>(push, procs, t, i, q). length procs - i)") auto

declare admit.simps [simp del]

subsection \<open>First-Come, First-Served\<close>

fun fcfs_loop :: "Process list \<Rightarrow> entry list \<Rightarrow> rat \<Rightarrow> entry list" where
  "fcfs_loop [] sched current_time = sched"
| "fcfs_loop (p # ps) sched current_time =
     (let (sched1, t1) =
            (if current_time < arrival_time p
             then (sched @ [(IDLE, current_time, arrival_time p)], arrival_time p)
             else (sched, current_time));
          end_time = t1 + burst_time p
      in fcfs_loop ps (sched1 @ [(pid p, t1, end_time)]) end_time)"

definition fcfs_scheduling :: "Process list \<Rightarrow> error + SchedulingResult" where
  "fcfs_scheduling processes =
     (if processes = [] then Inr (empty_result ''FCFS'')
      else let sorted_processes = sort_key by_arrival processes;
               sched = fcfs_loop sorted_processes [] 0
           in Inr \<lparr>schedule = sched, metrics = calculate_metrics processes sched,
                   algorithm_name = Name ''First-Come, First-Served (FCFS)''\<rparr>)"

subsection \<open>The non-preemptive loop (SJF and Priority)\<close>

text \<open>
  \<^verbatim>\<open>sjf_non_preemptive\<close> and \<^verbatim>\<open>priority_non_preemptive\<close> run the same loop; only the
  selection key differs, so the loop is written once with the key as a parameter.
  A \<^verbatim>\<open>while\<close> loop is \<open>while_option\<close>: \<open>None\<close> would be a loop that never ends.
\<close>

record np_state =
  np_schedule :: "entry list"
  np_time :: rat
  np_completed :: "string set"
  np_status :: status

definition np_init :: np_state where
  "np_init = \<lparr>np_schedule = [], np_time = 0, np_completed = {}, np_status = Running\<rparr>"

definition np_cond :: "Process list \<Rightarrow> np_state \<Rightarrow> bool" where
  "np_cond procs s \<longleftrightarrow>
     np_status s = Running \<and> card (np_completed s) < length procs"

definition np_step :: "(Process \<Rightarrow> 'k::linorder) \<Rightarrow> Process list \<Rightarrow> np_state \<Rightarrow> np_state" where
  "np_step keyf procs s =
     (case filter (\<lambda>p. pid p \<notin> np_completed s \<and> arrival_time p \<le> np_time s) procs of
        [] \<Rightarrow>
          (case filter (\<lambda>p. pid p \<notin> np_completed s) procs of
             [] \<Rightarrow> s\<lparr>np_status := Raised MinOfEmpty\<rparr>
           | c # cs \<Rightarrow>
               (let next_process = min_by arrival_time c cs
                in s\<lparr>np_schedule :=
                       np_schedule s @ [(IDLE, np_time s, arrival_time next_process)],
                     np_time := arrival_time next_process\<rparr>))
      | a # as \<Rightarrow>
          (let selected_process = min_by keyf a as;
               start_time = np_time s;
               end_time = np_time s + burst_time selected_process
           in s\<lparr>np_schedule := np_schedule s @ [(pid selected_process, start_time, end_time)],
                np_time := end_time,
                np_completed := insert (pid selected_process) (np_completed s)\<rparr>))"

definition non_preemptive ::
  "(Process \<Rightarrow> 'k::linorder) \<Rightarrow> label \<Rightarrow> Process list \<Rightarrow> (error + SchedulingResult) option" where
  "non_preemptive keyf name processes =
     (let processes_copy = copy_processes processes
      in map_option (\<lambda>s. finish processes name (np_status s) (np_schedule s))
           (while_option (np_cond processes_copy) (np_step keyf processes_copy) np_init))"

definition sjf_non_preemptive :: "Process list \<Rightarrow> (error + SchedulingResult) option" where
  "sjf_non_preemptive processes =
     (if processes = [] then Some (Inr (empty_result ''SJF Non-Preemptive''))
      else non_preemptive (\<lambda>p. (burst_time p, pid p))
             (Name ''Shortest Job First (Non-Preemptive)'') processes)"

text \<open>The validation loop of the two priority algorithms: the first process without a
  priority raises.\<close>

definition check_priorities :: "Process list \<Rightarrow> error option" where
  "check_priorities processes =
     (case filter (\<lambda>p. priority p = None) processes of
        [] \<Rightarrow> None
      | p # _ \<Rightarrow> Some (MissingPriority (pid p)))"

definition priority_non_preemptive :: "Process list \<Rightarrow> (error + SchedulingResult) option" where
  "priority_non_preemptive processes =
     (if processes = [] then Some (Inr (empty_result ''Priority Non-Preemptive''))
      else case check_priorities processes of
             Some e \<Rightarrow> Some (Inl e)
           | None \<Rightarrow>
               non_preemptive (\<lambda>p. (the (priority p), pid p))
                 (Name ''Priority (Non-Preemptive)'') processes)"

subsection \<open>The preemptive loop (SJF and Priority)\<close>

text \<open>
  The ready set is a \<^verbatim>\<open>heapq\<close> of tuples \<open>(key, pid, process)\<close>. The library heap is
  modelled by its contract: a push adds the entry, a pop removes and returns the entry
  whose \<open>(key, pid)\<close> is least. With pairwise distinct pids no two entries tie on
  \<open>(key, pid)\<close>; on a tie Python would go on to compare the process objects.

  Working copies are objects shared between \<^verbatim>\<open>processes_copy\<close>, the heap and
  \<^verbatim>\<open>current_process\<close>. \<^verbatim>\<open>processes_copy[i]\<close> is read only for a process that has not
  been admitted yet, hence never executed, so the value-level state below keeps the
  decremented copy in the heap or in \<open>p_current\<close> and the untouched one in the list.
\<close>

type_synonym 'k heap_entry = "'k \<times> string \<times> Process"

definition heappush :: "('k \<times> string \<times> 'a) list \<Rightarrow> 'k \<times> string \<times> 'a \<Rightarrow> ('k \<times> string \<times> 'a) list" where
  "heappush q x = q @ [x]"

definition heappop ::
  "(('k::linorder) \<times> string \<times> 'a) list
     \<Rightarrow> (('k \<times> string \<times> 'a) \<times> ('k \<times> string \<times> 'a) list) option" where
  "heappop q =
     (case q of
        [] \<Rightarrow> None
      | x # xs \<Rightarrow>
          (let m = min_by (\<lambda>e. (fst e, fst (snd e))) x xs in Some (m, remove1 m q)))"

record 'k p_state =
  p_schedule :: "entry list"
  p_time :: rat
  p_ready :: "'k heap_entry list"
  p_completed :: "string set"
  p_idx :: nat
  p_current :: "Process option"
  p_status :: status

definition p_init :: "'k p_state" where
  "p_init = \<lparr>p_schedule = [], p_time = 0, p_ready = [], p_completed = {}, p_idx = 0,
             p_current = None, p_status = Running\<rparr>"

definition p_cond :: "Process list \<Rightarrow> 'k p_state \<Rightarrow> bool" where
  "p_cond procs s \<longleftrightarrow> p_status s = Running \<and> card (p_completed s) < length procs"

text \<open>
  The first half of an iteration: admit the arrivals, pop the least entry, and switch to
  it when nothing is running or its pid differs from the running one (pushing an
  incomplete running process back). Returns the heap, the admission index and
  \<^verbatim>\<open>current_process\<close>.
\<close>

definition p_select ::
  "(Process \<Rightarrow> 'k::linorder) \<Rightarrow> Process list \<Rightarrow> 'k p_state
     \<Rightarrow> 'k heap_entry list \<times> nat \<times> Process option" where
  "p_select keyf procs s =
     (let (rq1, i1) =
            admit (\<lambda>q p. heappush q (keyf p, pid p, p)) procs (p_time s) (p_idx s) (p_ready s);
          (next_process, rq2) =
            (case heappop rq1 of
               None \<Rightarrow> (None, rq1)
             | Some ((k, i, p), rest) \<Rightarrow> (Some p, rest));
          switch =
            (case p_current s of
               None \<Rightarrow> True
             | Some c \<Rightarrow> (case next_process of None \<Rightarrow> False | Some n \<Rightarrow> pid n \<noteq> pid c));
          rq3 =
            (case p_current s of
               Some c \<Rightarrow>
                 if switch \<and> \<not> is_completed c then heappush rq2 (keyf c, pid c, c) else rq2
             | None \<Rightarrow> rq2);
          current_process = (if switch then next_process else p_current s)
      in (rq3, i1, current_process))"

text \<open>
  The second half: with nothing to run, the idle entry is appended and the call that
  follows, \<^verbatim>\<open>current_process.execute(1.0)\<close> on \<^verbatim>\<open>None\<close>, raises (or the loop is left
  when no process is still to arrive); otherwise the process runs for one time unit.
\<close>

definition p_step :: "(Process \<Rightarrow> 'k::linorder) \<Rightarrow> Process list \<Rightarrow> 'k p_state \<Rightarrow> 'k p_state" where
  "p_step keyf procs s =
     (let (rq3, i1, current_process) = p_select keyf procs s
      in case current_process of
           None \<Rightarrow>
             (if i1 < length procs
              then s\<lparr>p_schedule :=
                       p_schedule s @ [(IDLE, p_time s, arrival_time (procs ! i1))],
                     p_time := arrival_time (procs ! i1),
                     p_ready := rq3, p_idx := i1, p_current := None,
                     p_status := Raised NoneHasNoExecute\<rparr>
              else s\<lparr>p_ready := rq3, p_idx := i1, p_current := None, p_status := Broke\<rparr>)
         | Some c \<Rightarrow>
             (let (execution_time, c') = execute c 1;
                  start_time = p_time s;
                  end_time = p_time s + execution_time;
                  sched = record_run (p_schedule s) (pid c') start_time end_time
              in if is_completed c'
                 then s\<lparr>p_schedule := sched, p_time := end_time, p_ready := rq3, p_idx := i1,
                        p_completed := insert (pid c') (p_completed s), p_current := None\<rparr>
                 else s\<lparr>p_schedule := sched, p_time := end_time, p_ready := rq3, p_idx := i1,
                        p_current := Some c'\<rparr>))"

definition preemptive ::
  "(Process \<Rightarrow> 'k::linorder) \<Rightarrow> label \<Rightarrow> Process list \<Rightarrow> (error + SchedulingResult) option" where
  "preemptive keyf name processes =
     (let processes_copy = sort_key by_arrival (copy_processes processes)
      in map_option (\<lambda>s. finish processes name (p_status s) (p_schedule s))
           (while_option (p_cond processes_copy) (p_step keyf processes_copy) p_init))"

definition sjf_preemptive :: "Process list \<Rightarrow> (error + SchedulingResult) option" where
  "sjf_preemptive processes =
     (if processes = [] then Some (Inr (empty_result ''SJF Preemptive''))
      else preemptive remaining_time (Name ''Shortest Job First (Preemptive)'') processes)"

definition priority_preemptive :: "Process list \<Rightarrow> (error + SchedulingResult) option" where
  "priority_preemptive processes =
     (if processes = [] then Some (Inr (empty_result ''Priority Preemptive''))
      else case check_priorities processes of
             Some e \<Rightarrow> Some (Inl e)
           | None \<Rightarrow>
               preemptive (\<lambda>p. the (priority p)) (Name ''Priority (Preemptive)'') processes)"

subsection \<open>Round Robin\<close>

record rr_state =
  rr_schedule :: "entry list"
  rr_time :: rat
  rr_ready :: "Process list"
  rr_completed :: "string set"
  rr_idx :: nat
  rr_status :: status

definition rr_append :: "Process list \<Rightarrow> Process \<Rightarrow> Process list" where
  "rr_append q p = q @ [p]"

definition rr_init :: "Process list \<Rightarrow> rr_state" where
  "rr_init procs =
     (let (q, i) = admit rr_append procs 0 0 []
      in \<lparr>rr_schedule = [], rr_time = 0, rr_ready = q, rr_completed = {}, rr_idx = i,
          rr_status = Running\<rparr>)"

definition rr_cond :: "Process list \<Rightarrow> rr_state \<Rightarrow> bool" where
  "rr_cond procs s \<longleftrightarrow> rr_status s = Running \<and> card (rr_completed s) < length procs"

text \<open>The part of an iteration that runs the head of the queue, once the queue is known
  to be what it is after the idle branch.\<close>

definition rr_run ::
  "rat \<Rightarrow> Process list \<Rightarrow> entry list \<Rightarrow> rat \<Rightarrow> Process list \<Rightarrow> nat \<Rightarrow> rr_state \<Rightarrow> rr_state" where
  "rr_run time_quantum procs sched current_time q i s =
     (case q of
        [] \<Rightarrow> s\<lparr>rr_schedule := sched, rr_time := current_time, rr_ready := q, rr_idx := i,
                rr_status := Raised PopFromEmpty\<rparr>
      | p # rest \<Rightarrow>
          (let (execution_time, p') = execute p time_quantum;
               start_time = current_time;
               end_time = current_time + execution_time;
               sched' = record_run sched (pid p') start_time end_time;
               (q', i') = admit rr_append procs end_time i rest
           in if is_completed p'
              then s\<lparr>rr_schedule := sched', rr_time := end_time, rr_ready := q', rr_idx := i',
                     rr_completed := insert (pid p') (rr_completed s)\<rparr>
              else s\<lparr>rr_schedule := sched', rr_time := end_time,
                     rr_ready := rr_append q' p', rr_idx := i'\<rparr>))"

definition rr_step :: "rat \<Rightarrow> Process list \<Rightarrow> rr_state \<Rightarrow> rr_state" where
  "rr_step time_quantum procs s =
     (if rr_ready s = []
      then (if rr_idx s < length procs
            then (let next_arrival = arrival_time (procs ! rr_idx s);
                      sched = rr_schedule s @ [(IDLE, rr_time s, next_arrival)];
                      (q, i) = admit rr_append procs next_arrival (rr_idx s) (rr_ready s)
                  in rr_run time_quantum procs sched next_arrival q i s)
            else s\<lparr>rr_status := Broke\<rparr>)
      else rr_run time_quantum procs (rr_schedule s) (rr_time s) (rr_ready s) (rr_idx s) s)"

definition round_robin :: "Process list \<Rightarrow> rat \<Rightarrow> (error + SchedulingResult) option" where
  "round_robin processes time_quantum =
     (if processes = [] then Some (Inr (empty_result ''Round Robin''))
      else if time_quantum \<le> 0 then Some (Inl InvalidQuantum)
      else let processes_copy = sort_key by_arrival (copy_processes processes)
           in map_option
                (\<lambda>s. finish processes (RoundRobinQuantum time_quantum) (rr_status s)
                       (rr_schedule s))
                (while_option (rr_cond processes_copy) (rr_step time_quantum processes_copy)
                   (rr_init processes_copy)))"

text \<open>The six algorithms, as the caller selects one of them.\<close>

datatype algorithm = FCFS | SJF_NP | SJF_P | PRIORITY_NP | PRIORITY_P | RR rat

fun run_algorithm :: "algorithm \<Rightarrow> Process list \<Rightarrow> (error + SchedulingResult) option" where
  "run_algorithm FCFS processes = Some (fcfs_scheduling processes)"
| "run_algorithm SJF_NP processes = sjf_non_preemptive processes"
| "run_algorithm SJF_P processes = sjf_preemptive processes"
| "run_algorithm PRIORITY_NP processes = priority_non_preemptive processes"
| "run_algorithm PRIORITY_P processes = priority_preemptive processes"
| "run_algorithm (RR time_quantum) processes = round_robin processes time_quantum"

section \<open>The algorithms over an object store\<close>

text \<open>
  The model above passes process values around. To state what a call does to the objects
  the caller handed in, the same algorithms are written once more over an object store:
  the store is the list of all \<^verbatim>\<open>Process\<close> objects, a reference is an index into it, the
  caller passes a list of references, creating an object appends it to the store, and
  \<^verbatim>\<open>execute\<close> overwrites the object it is called on. Every function returns the store it
  leaves behind, also when it raises.
\<close>

type_synonym ref = nat

type_synonym store = "Process list"

definition alloc_copies :: "store \<Rightarrow> ref list \<Rightarrow> store \<times> ref list" where
  "alloc_copies h processes =
     (h @ map (\<lambda>r. copy_process (h ! r)) processes,
      [length h ..< length h + length processes])"

definition execute_h :: "store \<Rightarrow> ref \<Rightarrow> rat \<Rightarrow> rat \<times> store" where
  "execute_h h r time_quantum =
     (let (execution_time, p') = execute (h ! r) time_quantum in (execution_time, h[r := p']))"

function admit_h ::
  "store \<Rightarrow> ('q \<Rightarrow> ref \<Rightarrow> 'q) \<Rightarrow> ref list \<Rightarrow> rat \<Rightarrow> nat \<Rightarrow> 'q \<Rightarrow> 'q \<times> nat" where
  "admit_h h push procs t i q =
     (if i < length procs \<and> arrival_time (h ! (procs ! i)) \<le> t
      then admit_h h push procs t (Suc i) (push q (procs ! i))
      else (q, i))"
  by pat_completeness auto
termination
  by (relation "measure (\<lambda>(h, push, procs, t, i, q). length procs - i)") auto

declare admit_h.simps [simp del]

text \<open>
  FCFS sorts the caller's references and only reads the objects. The non-preemptive loop
  reads its copies and never writes to them, so it runs on their values as they are after
  the copies are made.
\<close>

definition fcfs_scheduling_h :: "store \<Rightarrow> ref list \<Rightarrow> (error + SchedulingResult) \<times> store" where
  "fcfs_scheduling_h h processes =
     (if processes = [] then (Inr (empty_result ''FCFS''), h)
      else let sorted_processes = sort_key (\<lambda>r. by_arrival (h ! r)) processes;
               sched = fcfs_loop (map ((!) h) sorted_processes) [] 0
           in (Inr \<lparr>schedule = sched,
                    metrics = calculate_metrics (map ((!) h) processes) sched,
                    algorithm_name = Name ''First-Come, First-Served (FCFS)''\<rparr>, h))"

definition non_preemptive_h ::
  "(Process \<Rightarrow> 'k::linorder) \<Rightarrow> label \<Rightarrow> store \<Rightarrow> ref list
     \<Rightarrow> ((error + SchedulingResult) \<times> store) option" where
  "non_preemptive_h keyf name h processes =
     (let (h1, processes_copy) = alloc_copies h processes;
          procs = map ((!) h1) processes_copy
      in map_option
           (\<lambda>s. (finish (map ((!) h1) processes) name (np_status s) (np_schedule s), h1))
           (while_option (np_cond procs) (np_step keyf procs) np_init))"

definition check_priorities_h :: "store \<Rightarrow> ref list \<Rightarrow> error option" where
  "check_priorities_h h processes = check_priorities (map ((!) h) processes)"

text \<open>
  The preemptive loop over the store: the heap and \<^verbatim>\<open>current_process\<close> hold references,
  every field is read through the store, and \<^verbatim>\<open>execute\<close> writes to it.
\<close>

record 'k ph_state =
  ph_store :: store
  ph_schedule :: "entry list"
  ph_time :: rat
  ph_ready :: "('k \<times> string \<times> ref) list"
  ph_completed :: "string set"
  ph_idx :: nat
  ph_current :: "ref option"
  ph_status :: status

definition ph_init :: "store \<Rightarrow> 'k ph_state" where
  "ph_init h = \<lparr>ph_store = h, ph_schedule = [], ph_time = 0, ph_ready = [], ph_completed = {},
                ph_idx = 0, ph_current = None, ph_status = Running\<rparr>"

definition ph_cond :: "ref list \<Rightarrow> 'k ph_state \<Rightarrow> bool" where
  "ph_cond procs s \<longleftrightarrow> ph_status s = Running \<and> card (ph_completed s) < length procs"

definition p_select_h ::
  "(Process \<Rightarrow> 'k::linorder) \<Rightarrow> ref list \<Rightarrow> 'k ph_state
     \<Rightarrow> ('k \<times> string \<times> ref) list \<times> nat \<times> ref option" where
  "p_select_h keyf procs s =
     (let h = ph_store s;
          (rq1, i1) =
            admit_h h (\<lambda>q r. heappush q (keyf (h ! r), pid (h ! r), r)) procs
              (ph_time s) (ph_idx s) (ph_ready s);
          (next_process, rq2) =
            (case heappop rq1 of
               None \<Rightarrow> (None, rq1)
             | Some ((k, i, r), rest) \<Rightarrow> (Some r, rest));
          switch =
            (case ph_current s of
               None \<Rightarrow> True
             | Some c \<Rightarrow>
                 (case next_process of None \<Rightarrow> False | Some n \<Rightarrow> pid (h ! n) \<noteq> pid (h ! c)));
          rq3 =
            (case ph_current s of
               Some c \<Rightarrow>
                 if switch \<and> \<not> is_completed (h ! c)
                 then heappush rq2 (keyf (h ! c), pid (h ! c), c) else rq2
             | None \<Rightarrow> rq2);
          current_process = (if switch then next_process else ph_current s)
      in (rq3, i1, current_process))"

definition p_step_h ::
  "(Process \<Rightarrow> 'k::linorder) \<Rightarrow> ref list \<Rightarrow> 'k ph_state \<Rightarrow> 'k ph_state" where
  "p_step_h keyf procs s =
     (let (rq3, i1, current_process) = p_select_h keyf procs s
      in case current_process of
           None \<Rightarrow>
             (if i1 < length procs
              then s\<lparr>ph_schedule :=
                       ph_schedule s
                       @ [(IDLE, ph_time s, arrival_time (ph_store s ! (procs ! i1)))],
                     ph_time := arrival_time (ph_store s ! (procs ! i1)),
                     ph_ready := rq3, ph_idx := i1, ph_current := None,
                     ph_status := Raised NoneHasNoExecute\<rparr>
              else s\<lparr>ph_ready := rq3, ph_idx := i1, ph_current := None, ph_status := Broke\<rparr>)
         | Some c \<Rightarrow>
             (let (execution_time, h') = execute_h (ph_store s) c 1;
                  start_time = ph_time s;
                  end_time = ph_time s + execution_time;
                  sched = record_run (ph_schedule s) (pid (h' ! c)) start_time end_time
              in if is_completed (h' ! c)
                 then s\<lparr>ph_store := h', ph_schedule := sched, ph_time := end_time,
                        ph_ready := rq3, ph_idx := i1,
                        ph_completed := insert (pid (h' ! c)) (ph_completed s),
                        ph_current := None\<rparr>
                 else s\<lparr>ph_store := h', ph_schedule := sched, ph_time := end_time,
                        ph_ready := rq3, ph_idx := i1, ph_current := Some c\<rparr>))"

definition preemptive_h ::
  "(Process \<Rightarrow> 'k::linorder) \<Rightarrow> label \<Rightarrow> store \<Rightarrow> ref list
     \<Rightarrow> ((error + SchedulingResult) \<times> store) option" where
  "preemptive_h keyf name h processes =
     (let (h1, copies) = alloc_copies h processes;
          processes_copy = sort_key (\<lambda>r. by_arrival (h1 ! r)) copies
      in map_option
           (\<lambda>s. (finish (map ((!) (ph_store s)) processes) name (ph_status s) (ph_schedule s),
                  ph_store s))
           (while_option (ph_cond processes_copy) (p_step_h keyf processes_copy) (ph_init h1)))"

text \<open>Round Robin over the store.\<close>

record rh_state =
  rh_store :: store
  rh_schedule :: "entry list"
  rh_time :: rat
  rh_ready :: "ref list"
  rh_completed :: "string set"
  rh_idx :: nat
  rh_status :: status

definition rh_append :: "ref list \<Rightarrow> ref \<Rightarrow> ref list" where
  "rh_append q r = q @ [r]"

definition rh_init :: "store \<Rightarrow> ref list \<Rightarrow> rh_state" where
  "rh_init h procs =
     (let (q, i) = admit_h h rh_append procs 0 0 []
      in \<lparr>rh_store = h, rh_schedule = [], rh_time = 0, rh_ready = q, rh_completed = {},
          rh_idx = i, rh_status = Running\<rparr>)"

definition rh_cond :: "ref list \<Rightarrow> rh_state \<Rightarrow> bool" where
  "rh_cond procs s \<longleftrightarrow> rh_status s = Running \<and> card (rh_completed s) < length procs"

definition rr_run_h ::
  "rat \<Rightarrow> ref list \<Rightarrow> entry list \<Rightarrow> rat \<Rightarrow> ref list \<Rightarrow> nat \<Rightarrow> rh_state \<Rightarrow> rh_state" where
  "rr_run_h time_quantum procs sched current_time q i s =
     (case q of
        [] \<Rightarrow> s\<lparr>rh_schedule := sched, rh_time := current_time, rh_ready := q, rh_idx := i,
                rh_status := Raised PopFromEmpty\<rparr>
      | c # rest \<Rightarrow>
          (let (execution_time, h') = execute_h (rh_store s) c time_quantum;
               start_time = current_time;
               end_time = current_time + execution_time;
               sched' = record_run sched (pid (h' ! c)) start_time end_time;
               (q', i') = admit_h h' rh_append procs end_time i rest
           in if is_completed (h' ! c)
              then s\<lparr>rh_store := h', rh_schedule := sched', rh_time := end_time,
                     rh_ready := q', rh_idx := i',
                     rh_completed := insert (pid (h' ! c)) (rh_completed s)\<rparr>
              else s\<lparr>rh_store := h', rh_schedule := sched', rh_time := end_time,
                     rh_ready := rh_append q' c, rh_idx := i'\<rparr>))"

definition rr_step_h :: "rat \<Rightarrow> ref list \<Rightarrow> rh_state \<Rightarrow> rh_state" where
  "rr_step_h time_quantum procs s =
     (if rh_ready s = []
      then (if rh_idx s < length procs
            then (let next_arrival = arrival_time (rh_store s ! (procs ! rh_idx s));
                      sched = rh_schedule s @ [(IDLE, rh_time s, next_arrival)];
                      (q, i) = admit_h (rh_store s) rh_append procs next_arrival (rh_idx s)
                                 (rh_ready s)
                  in rr_run_h time_quantum procs sched next_arrival q i s)
            else s\<lparr>rh_status := Broke\<rparr>)
      else rr_run_h time_quantum procs (rh_schedule s) (rh_time s) (rh_ready s) (rh_idx s) s)"

definition round_robin_h ::
  "store \<Rightarrow> ref list \<Rightarrow> rat \<Rightarrow> ((error + SchedulingResult) \<times> store) option" where
  "round_robin_h h processes time_quantum =
     (if processes = [] then Some (Inr (empty_result ''Round Robin''), h)
      else if time_quantum \<le> 0 then Some (Inl InvalidQuantum, h)
      else let (h1, copies) = alloc_copies h processes;
               processes_copy = sort_key (\<lambda>r. by_arrival (h1 ! r)) copies
           in map_option
                (\<lambda>s. (finish (map ((!) (rh_store s)) processes)
                         (RoundRobinQuantum time_quantum) (rh_status s) (rh_schedule s),
                       rh_store s))
                (while_option (rh_cond processes_copy) (rr_step_h time_quantum processes_copy)
                   (rh_init h1 processes_copy)))"

fun run_algorithm_h ::
  "algorithm \<Rightarrow> store \<Rightarrow> ref list \<Rightarrow> ((error + SchedulingResult) \<times> store) option" where
  "run_algorithm_h FCFS h processes = Some (fcfs_scheduling_h h processes)"
| "run_algorithm_h SJF_NP h processes =
     (if processes = [] then Some (Inr (empty_result ''SJF Non-Preemptive''), h)
      else non_preemptive_h (\<lambda>p. (burst_time p, pid p))
             (Name ''Shortest Job First (Non-Preemptive)'') h processes)"
| "run_algorithm_h SJF_P h processes =
     (if processes = [] then Some (Inr (empty_result ''SJF Preemptive''), h)
      else preemptive_h remaining_time (Name ''Shortest Job First (Preemptive)'') h processes)"
| "run_algorithm_h PRIORITY_NP h processes =
     (if processes = [] then Some (Inr (empty_result ''Priority Non-Preemptive''), h)
      else case check_priorities_h h processes of
             Some e \<Rightarrow> Some (Inl e, h)
           | None \<Rightarrow>
               non_preemptive_h (\<lambda>p. (the (priority p), pid p))
                 (Name ''Priority (Non-Preemptive)'') h processes)"
| "run_algorithm_h PRIORITY_P h processes =
     (if processes = [] then Some (Inr (empty_result ''Priority Preemptive''), h)
      else case check_priorities_h h processes of
             Some e \<Rightarrow> Some (Inl e, h)
           | None \<Rightarrow>
               preemptive_h (\<lambda>p. the (priority p)) (Name ''Priority (Preemptive)'') h
                 processes)"
| "run_algorithm_h (RR time_quantum) h processes = round_robin_h h processes time_quantum"

text \<open>
  What the two loops maintain: the objects that existed before the call are as they were,
  and every reference in the ready set or running is to an object made during the call.
\<close>

definition ph_frame :: "store \<Rightarrow> 'k ph_state \<Rightarrow> bool" where
  "ph_frame h0 s \<longleftrightarrow>
     take (length h0) (ph_store s) = h0
     \<and> (\<forall>x\<in>set (ph_ready s). length h0 \<le> snd (snd x))
     \<and> (\<forall>c. ph_current s = Some c \<longrightarrow> length h0 \<le> c)"

definition rh_frame :: "store \<Rightarrow> rh_state \<Rightarrow> bool" where
  "rh_frame h0 s \<longleftrightarrow>
     take (length h0) (rh_store s) = h0 \<and> (\<forall>c\<in>set (rh_ready s). length h0 \<le> c)"

section \<open>The specification's reading of the metrics\<close>

text \<open>
  The completion time of a process in the specification's words: the end time of the last
  schedule entry that bears its pid and is not an idle entry (none if there is no such
  entry).
\<close>

definition last_run_end :: "string \<Rightarrow> entry list \<Rightarrow> rat option" where
  "last_run_end i sched =
     (let es = filter (\<lambda>(p, start_time, end_time). p = i \<and> p \<noteq> IDLE) sched
      in if es = [] then None else Some (snd (snd (last es))))"

text \<open>The processes that completed: those with a completion time.\<close>

definition completed_in :: "entry list \<Rightarrow> Process list \<Rightarrow> Process list" where
  "completed_in sched processes = filter (\<lambda>p. last_run_end (pid p) sched \<noteq> None) processes"

text \<open>
  Two process values that agree on everything but the remaining time.
\<close>

definition same_description :: "Process \<Rightarrow> Process \<Rightarrow> bool" where
  "same_description p q \<longleftrightarrow>
     pid p = pid q \<and> arrival_time p = arrival_time q \<and> burst_time p = burst_time q
     \<and> priority p = priority q"

section \<open>The specification's reading of a schedule\<close>

text \<open>
  The specification's chronological schedule: every entry starts strictly before it ends,
  entries are sorted by start time, never overlap, and each ends where the next starts;
  and the spans cover the interval from 0 to a given time.
\<close>

definition entry_start :: "entry \<Rightarrow> rat" where
  "entry_start e = fst (snd e)"

definition entry_end :: "entry \<Rightarrow> rat" where
  "entry_end e = snd (snd e)"

definition chronological :: "entry list \<Rightarrow> bool" where
  "chronological sched \<longleftrightarrow>
     (\<forall>e\<in>set sched. entry_start e < entry_end e)
     \<and> sorted (map entry_start sched)
     \<and> (\<forall>i j. i < j \<longrightarrow> j < length sched \<longrightarrow>
            entry_end (sched ! i) \<le> entry_start (sched ! j))
     \<and> (\<forall>i. Suc i < length sched \<longrightarrow>
            entry_end (sched ! i) = entry_start (sched ! Suc i))"

definition covers :: "entry list \<Rightarrow> rat \<Rightarrow> bool" where
  "covers sched t \<longleftrightarrow>
     (\<forall>x. 0 \<le> x \<longrightarrow> x \<le> t \<longrightarrow> (\<exists>e\<in>set sched. entry_start e \<le> x \<and> x \<le> entry_end e))"

text \<open>
  The same, computed along the list: a schedule that runs from \<open>a\<close> to \<open>b\<close> without a
  gap. The loops keep their schedule in this shape.
\<close>

fun contiguous :: "rat \<Rightarrow> entry list \<Rightarrow> rat \<Rightarrow> bool" where
  "contiguous a [] b \<longleftrightarrow> a = b"
| "contiguous a ((p, s, e) # es) b \<longleftrightarrow> s = a \<and> s < e \<and> contiguous e es b"

text \<open>
  A valid input: unique pids, non-negative arrivals, positive bursts, priorities present
  for the priority algorithms and a positive quantum for Round Robin.
\<close>

definition valid_input :: "algorithm \<Rightarrow> Process list \<Rightarrow> bool" where
  "valid_input a processes \<longleftrightarrow>
     distinct (map pid processes)
     \<and> (\<forall>p\<in>set processes. 0 \<le> arrival_time p \<and> 0 < burst_time p)
     \<and> (a = PRIORITY_NP \<or> a = PRIORITY_P \<longrightarrow> (\<forall>p\<in>set processes. priority p \<noteq> None))
     \<and> (\<forall>q. a = RR q \<longrightarrow> 0 < q)"

text \<open>Loop invariants of the three while loops.\<close>

definition np_inv :: "np_state \<Rightarrow> bool" where
  "np_inv s \<longleftrightarrow>
     contiguous 0 (np_schedule s) (np_time s) \<and> (np_completed s \<noteq> {} \<longrightarrow> np_schedule s \<noteq> [])"

definition p_ok :: "'k p_state \<Rightarrow> bool" where
  "p_ok s \<longleftrightarrow>
     contiguous 0 (p_schedule s) (p_time s)
     \<and> (\<forall>x\<in>set (p_ready s). 0 < remaining_time (snd (snd x)))
     \<and> (\<forall>c. p_current s = Some c \<longrightarrow> 0 < remaining_time c)
     \<and> (p_schedule s = [] \<longrightarrow>
          p_idx s = 0 \<and> p_ready s = [] \<and> p_current s = None \<and> p_completed s = {}
          \<and> p_status s = Running)"

definition p_inv :: "'k p_state \<Rightarrow> bool" where
  "p_inv s \<longleftrightarrow> (\<exists>e. p_status s = Raised e) \<or> p_ok s"

definition rr_ok :: "Process list \<Rightarrow> rr_state \<Rightarrow> bool" where
  "rr_ok procs s \<longleftrightarrow>
     contiguous 0 (rr_schedule s) (rr_time s)
     \<and> (\<forall>p\<in>set (rr_ready s). 0 < remaining_time p)
     \<and> (rr_idx s < length procs \<longrightarrow> rr_time s < arrival_time (procs ! rr_idx s))
     \<and> (rr_schedule s = [] \<longrightarrow>
          rr_completed s = {} \<and> rr_status s = Running
          \<and> (rr_ready s \<noteq> [] \<or> rr_idx s < length procs))"

definition rr_inv :: "Process list \<Rightarrow> rr_state \<Rightarrow> bool" where
  "rr_inv procs s \<longleftrightarrow> (\<exists>e. rr_status s = Raised e) \<or> rr_ok procs s"

section \<open>The Round Robin loop, state by state\<close>

text \<open>
  The states the Round Robin loop passes through: the initial state, and the state after
  an iteration from a state in which the loop condition holds.
\<close>

inductive rr_reachable :: "rat \<Rightarrow> Process list \<Rightarrow> rr_state \<Rightarrow> bool"
  for time_quantum :: rat and procs :: "Process list" where
  init: "rr_reachable time_quantum procs (rr_init procs)"
| step: "rr_reachable time_quantum procs s \<Longrightarrow> rr_cond procs s \<Longrightarrow>
           rr_reachable time_quantum procs (rr_step time_quantum procs s)"



section \<open>Evaluation rules\<close>

lemmas eval_simps =
  new_Process_def copy_process_def copy_processes_def by_arrival_def is_completed_def execute_def IDLE_def
  record_run_def admit.simps heappop_def heappush_def finish_def empty_result_def Let_def
  while_option_unfold
  round_half_even_def round2_def completion_times_def turnaround_times_def waiting_times_def
  average_def total_time_def cpu_time_def cpu_utilization_def calculate_metrics_def

lemmas loop_simps =
  np_init_def np_cond_def np_step_def non_preemptive_def
  p_init_def p_cond_def p_select_def p_step_def preemptive_def
  rr_init_def rr_cond_def rr_step_def rr_run_def rr_append_def
  check_priorities_def

section \<open>Metrics\<close>

lemma completion_times_snoc:
  "completion_times (sched @ [(p, s, e)]) =
     (if p \<noteq> IDLE then (completion_times sched)(p \<mapsto> e) else completion_times sched)"
  by (simp add: completion_times_def)

lemma completion_times_last_run_end: "completion_times sched i = last_run_end i sched"
proof (induction sched rule: rev_induct)
  case Nil
  then show ?case by (simp add: completion_times_def last_run_end_def)
next
  case (snoc x xs)
  obtain p s e where x: "x = (p, s, e)" by (cases x)
  from snoc show ?case
    by (auto simp: x completion_times_snoc last_run_end_def Let_def)
qed

text \<open>
  With times as exact rationals, \<open>calculate_metrics\<close> takes as completion time of a process the end of the last
  non-idle entry with its pid; the average turnaround time is the mean of completion minus
  arrival, the average waiting time the mean of turnaround minus burst, both over the
  processes that completed (0 if none did) and rounded to two decimals. On P1(0,3), P2(1,2)
  with schedule [(P1,0,3),(P2,3,5)] the averages are 3.5 and 1.0, the utilization 100 and
  the total time 5.
\<close>

theorem calculate_metrics_means:
  "calculate_metrics processes sched ''average_turnaround_time'' =
     Some (round2 (if completed_in sched processes = [] then 0
                   else sum_list (map (\<lambda>p. the (last_run_end (pid p) sched) - arrival_time p)
                                   (completed_in sched processes))
                        / of_nat (length (completed_in sched processes))))
   \<and> calculate_metrics processes sched ''average_waiting_time'' =
     Some (round2 (if completed_in sched processes = [] then 0
                   else sum_list (map (\<lambda>p. (the (last_run_end (pid p) sched) - arrival_time p)
                                            - burst_time p)
                                   (completed_in sched processes))
                        / of_nat (length (completed_in sched processes))))
   \<and> (let m = calculate_metrics [new_Process ''P1'' 0 3 None, new_Process ''P2'' 1 2 None]
                 [(''P1'', 0, 3), (''P2'', 3, 5)]
      in m ''average_turnaround_time'' = Some (7 / 2) \<and> m ''average_waiting_time'' = Some 1
         \<and> m ''cpu_utilization'' = Some 100 \<and> m ''total_time'' = Some 5)"
proof -
  have ct: "completion_times sched = (\<lambda>i. last_run_end i sched)"
    by (rule ext) (rule completion_times_last_run_end)
  have a: "calculate_metrics processes sched ''average_turnaround_time'' =
     Some (round2 (if completed_in sched processes = [] then 0
                   else sum_list (map (\<lambda>p. the (last_run_end (pid p) sched) - arrival_time p)
                                   (completed_in sched processes))
                        / of_nat (length (completed_in sched processes))))"
    by (simp add: calculate_metrics_def Let_def ct average_def turnaround_times_def
        completed_in_def)
  have b: "calculate_metrics processes sched ''average_waiting_time'' =
     Some (round2 (if completed_in sched processes = [] then 0
                   else sum_list (map (\<lambda>p. (the (last_run_end (pid p) sched) - arrival_time p)
                                            - burst_time p)
                                   (completed_in sched processes))
                        / of_nat (length (completed_in sched processes))))"
    by (simp add: calculate_metrics_def Let_def ct average_def waiting_times_def
        completed_in_def)
  have c: "(let m = calculate_metrics [new_Process ''P1'' 0 3 None, new_Process ''P2'' 1 2 None]
                 [(''P1'', 0, 3), (''P2'', 3, 5)]
      in m ''average_turnaround_time'' = Some (7 / 2) \<and> m ''average_waiting_time'' = Some 1
         \<and> m ''cpu_utilization'' = Some 100 \<and> m ''total_time'' = Some 5)"
    by (simp add: eval_simps)
  from a b c show ?thesis by blast
qed

section \<open>Errors raised before scheduling\<close>

text \<open>
  C3, as the claim states it, fails on the empty list: the empty-input check of
  \<open>round_robin\<close> comes before the quantum check, so a quantum of 0 with no process returns
  the empty result and raises nothing.
\<close>

theorem round_robin_empty_zero_quantum_counterexample:
  "round_robin [] 0 = Some (Inr (empty_result ''Round Robin''))
   \<and> round_robin [] 0 \<noteq> Some (Inl InvalidQuantum)"
  by (simp add: round_robin_def)

text \<open>
  C3, amended. For every non-empty process list, \<open>round_robin\<close> with a quantum less than
  or equal to 0 raises the invalid-configuration error and produces no result; for the
  empty list the empty result is returned whatever the quantum.
\<close>

theorem round_robin_nonpositive_quantum:
  "(processes \<noteq> [] \<longrightarrow> time_quantum \<le> 0 \<longrightarrow>
      round_robin processes time_quantum = Some (Inl InvalidQuantum))
   \<and> round_robin [] time_quantum = Some (Inr (empty_result ''Round Robin''))"
  by (simp add: round_robin_def)

theorem round_robin_nonpositive_quantum_witness:
  "[new_Process ''P1'' 0 3 None] \<noteq> [] \<and> (-1 :: rat) \<le> 0
   \<and> round_robin [new_Process ''P1'' 0 3 None] (-1) = Some (Inl InvalidQuantum)"
  using round_robin_nonpositive_quantum [of "[new_Process ''P1'' 0 3 None]" "-1"]
  by simp

lemma filter_Cons_find: "filter P xs = q # qs \<Longrightarrow> find P xs = Some q"
  by (induction xs) (auto split: if_splits)

text \<open>
  C8. On a list in which some process has no priority (so the list is not empty), both
  priority algorithms raise the missing-priority error, naming the first such process;
  neither returns a result.
\<close>

theorem priority_missing_fails:
  assumes "p \<in> set processes" and "priority p = None"
  shows "\<exists>q. find (\<lambda>x. priority x = None) processes = Some q
           \<and> priority_non_preemptive processes = Some (Inl (MissingPriority (pid q)))
           \<and> priority_preemptive processes = Some (Inl (MissingPriority (pid q)))"
proof -
  from assms have ne: "processes \<noteq> []" by auto
  from assms have "filter (\<lambda>x. priority x = None) processes \<noteq> []"
    by (auto simp: filter_empty_conv)
  then obtain q qs where f: "filter (\<lambda>x. priority x = None) processes = q # qs"
    by (cases "filter (\<lambda>x. priority x = None) processes") auto
  have "find (\<lambda>x. priority x = None) processes = Some q"
    using f by (rule filter_Cons_find)
  then show ?thesis
    using ne f
    by (simp add: priority_non_preemptive_def priority_preemptive_def check_priorities_def)
qed

theorem priority_missing_fails_witness:
  "\<exists>q. find (\<lambda>x. priority x = None)
          [new_Process ''P1'' 0 3 None, new_Process ''P2'' 1 2 (Some 1)] = Some q
       \<and> priority_non_preemptive [new_Process ''P1'' 0 3 None, new_Process ''P2'' 1 2 (Some 1)]
           = Some (Inl (MissingPriority (pid q)))
       \<and> priority_preemptive [new_Process ''P1'' 0 3 None, new_Process ''P2'' 1 2 (Some 1)]
           = Some (Inl (MissingPriority (pid q)))"
  using priority_missing_fails
    [of "new_Process ''P1'' 0 3 None"
        "[new_Process ''P1'' 0 3 None, new_Process ''P2'' 1 2 (Some 1)]"]
  by (simp add: new_Process_def)

section \<open>The preemptive loop on concrete inputs\<close>

text \<open>
  C1 fails on the code. On P1(0,2), P2(0,3) the first step runs P1 for [0,1) and leaves it
  with remaining time 1. The second step pops P2 (remaining time 3) from the heap; its pid
  differs from the running P1, so P1 is pushed back and P2 runs for [1,2), although P1 has
  arrived, is incomplete and has the lesser remaining time. The two then alternate.
\<close>

theorem sjf_preemptive_runs_longer_job:
  "(let procs = [new_Process ''P1'' 0 2 None, new_Process ''P2'' 0 3 None];
        s1 = p_step remaining_time procs p_init;
        s2 = p_step remaining_time procs s1
    in sort_key by_arrival (copy_processes procs) = procs
       \<and> p_time s1 = 1
       \<and> map_option (\<lambda>c. (pid c, remaining_time c)) (p_current s1) = Some (''P1'', 1)
       \<and> map (\<lambda>(k, i, p). (i, remaining_time p)) (p_ready s1) = [(''P2'', 3)]
       \<and> p_schedule s2 = [(''P1'', 0, 1), (''P2'', 1, 2)]
       \<and> map_option (map_sum id schedule) (sjf_preemptive procs) =
           Some (Inr [(''P1'', 0, 1), (''P2'', 1, 2), (''P1'', 2, 3), (''P2'', 3, 5)]))"
  by (simp add: sjf_preemptive_def eval_simps loop_simps)

lemma arrival_copy_sorted:
  assumes "\<forall>p\<in>set processes. 0 < arrival_time p"
  shows "\<forall>p\<in>set (sort_key by_arrival (copy_processes processes)). 0 < arrival_time p"
  using assms by (auto simp: copy_processes_def copy_process_def new_Process_def)

lemma preemptive_late_start:
  assumes ne: "processes \<noteq> []" and late: "\<forall>p\<in>set processes. 0 < arrival_time p"
  shows "preemptive keyf name processes = Some (Inl NoneHasNoExecute)"
proof -
  define procs where "procs = sort_key by_arrival (copy_processes processes)"
  have len: "0 < length procs" using ne by (simp add: procs_def copy_processes_def)
  then have "procs ! 0 \<in> set procs" by simp
  with arrival_copy_sorted [OF late] have a0: "0 < arrival_time (procs ! 0)"
    by (simp add: procs_def)
  have adm: "admit push procs 0 0 q = (q, 0)" for push and q :: "'b"
    using a0 by (simp add: admit.simps)
  define s1 :: "'a p_state" where "s1 = p_step keyf procs p_init"
  have st: "p_status s1 = Raised NoneHasNoExecute"
    using len by (simp add: s1_def p_step_def p_select_def p_init_def adm heappop_def)
  have c0: "p_cond procs (p_init :: 'a p_state)"
    using len by (simp add: p_cond_def p_init_def)
  have c1: "\<not> p_cond procs s1" by (simp add: p_cond_def st)
  have "while_option (p_cond procs) (p_step keyf procs) p_init = Some s1"
    using c0 c1 by (subst while_option_unfold, simp, subst while_option_unfold, simp add: s1_def)
  then show ?thesis
    by (simp add: preemptive_def procs_def [symmetric] finish_def st)
qed

text \<open>
  C2 fails on the code. When no process is ready and one is still to arrive, the two
  preemptive algorithms append the idle entry and then go on to
  \<^verbatim>\<open>current_process.execute(1.0)\<close> with \<^verbatim>\<open>current_process\<close> still \<^verbatim>\<open>None\<close>: the call
  raises and no result is returned. This happens on every non-empty input whose
  processes all arrive after time 0.
\<close>

theorem preemptive_idle_faults:
  assumes "processes \<noteq> []" and "\<forall>p\<in>set processes. 0 < arrival_time p"
  shows "sjf_preemptive processes = Some (Inl NoneHasNoExecute)
         \<and> (check_priorities processes = None \<longrightarrow>
              priority_preemptive processes = Some (Inl NoneHasNoExecute))"
  using assms
    preemptive_late_start [OF assms, of remaining_time]
    preemptive_late_start [OF assms, of "\<lambda>p. the (priority p)"]
  by (simp add: sjf_preemptive_def priority_preemptive_def)

theorem preemptive_idle_faults_witness:
  "sjf_preemptive [new_Process ''P1'' 1 1 (Some 1)] = Some (Inl NoneHasNoExecute)
   \<and> priority_preemptive [new_Process ''P1'' 1 1 (Some 1)] = Some (Inl NoneHasNoExecute)"
  using preemptive_idle_faults [of "[new_Process ''P1'' 1 1 (Some 1)]"]
  by (simp add: new_Process_def check_priorities_def)

section \<open>The working copies\<close>

lemma copy_processes_map: "copy_processes ps = map copy_process ps"
  by (simp add: copy_processes_def)

lemma copy_process_fields [simp]:
  "pid (copy_process p) = pid p" "arrival_time (copy_process p) = arrival_time p"
  "burst_time (copy_process p) = burst_time p" "priority (copy_process p) = priority p"
  "remaining_time (copy_process p) = burst_time p"
  by (simp_all add: copy_process_def new_Process_def)

lemma copy_process_idem [simp]: "copy_process (copy_process p) = copy_process p"
  by (simp add: copy_process_def new_Process_def)

lemma same_description_copy: "same_description p q \<Longrightarrow> copy_process p = copy_process q"
  by (simp add: same_description_def copy_process_def)

lemma copy_processes_same:
  "list_all2 same_description ps ps' \<Longrightarrow> copy_processes ps = copy_processes ps'"
  unfolding copy_processes_map
  by (induction rule: list_all2_induct) (simp_all add: same_description_copy)

lemma insort_key_map:
  "insort_key k (c x) (map c xs) = map c (insort_key (\<lambda>y. k (c y)) x xs)"
  by (induction xs) simp_all

lemma sort_key_map: "sort_key k (map c xs) = map c (sort_key (\<lambda>y. k (c y)) xs)"
  by (induction xs) (simp_all add: insort_key_map)

lemma by_arrival_copy [simp]: "by_arrival (copy_process p) = by_arrival p"
  by (simp add: by_arrival_def)

lemma fcfs_loop_copy: "fcfs_loop (map copy_process xs) sched t = fcfs_loop xs sched t"
  by (induction xs arbitrary: sched t) (simp_all add: Let_def)

lemma calculate_metrics_copy:
  "calculate_metrics (copy_processes ps) sched = calculate_metrics ps sched"
  by (simp add: calculate_metrics_def turnaround_times_def waiting_times_def copy_processes_map
      filter_map o_def)

lemma finish_copy: "finish (copy_processes ps) name st sched = finish ps name st sched"
  by (simp add: finish_def calculate_metrics_copy split: status.splits)

lemma check_priorities_copy: "check_priorities (copy_processes ps) = check_priorities ps"
  by (simp add: check_priorities_def copy_processes_map filter_map o_def split: list.splits)

lemma copy_processes_idem [simp]: "copy_processes (copy_processes ps) = copy_processes ps"
  by (simp add: copy_processes_map)

lemma copy_processes_Nil [simp]: "copy_processes ps = [] \<longleftrightarrow> ps = []"
  by (simp add: copy_processes_map)

lemma fcfs_copy: "fcfs_scheduling (copy_processes ps) = fcfs_scheduling ps"
  by (simp add: fcfs_scheduling_def calculate_metrics_copy Let_def)
     (simp add: copy_processes_map sort_key_map fcfs_loop_copy)

lemma run_algorithm_copy: "run_algorithm a (copy_processes ps) = run_algorithm a ps"
  by (cases a)
     (simp_all add: fcfs_copy sjf_non_preemptive_def sjf_preemptive_def
        priority_non_preemptive_def priority_preemptive_def round_robin_def
        non_preemptive_def preemptive_def finish_copy check_priorities_copy Let_def
      split: option.splits)

text \<open>
  C10. Two input lists that agree, position by position, on pid, arrival time, burst time
  and priority give the same outcome under each of the six algorithms, whatever their
  remaining times: every algorithm but FCFS works on copies whose remaining time is reset
  to the burst time, and FCFS and the metrics never read it.
\<close>

theorem remaining_time_irrelevant:
  assumes "list_all2 same_description ps ps'"
  shows "run_algorithm a ps = run_algorithm a ps'"
proof -
  have "run_algorithm a ps = run_algorithm a (copy_processes ps)"
    by (simp add: run_algorithm_copy)
  also have "\<dots> = run_algorithm a (copy_processes ps')"
    using copy_processes_same [OF assms] by simp
  also have "\<dots> = run_algorithm a ps'"
    by (simp add: run_algorithm_copy)
  finally show ?thesis .
qed

theorem remaining_time_irrelevant_witness:
  "list_all2 same_description
     [new_Process ''P1'' 0 2 None, new_Process ''P2'' 1 1 None]
     [(new_Process ''P1'' 0 2 None)\<lparr>remaining_time := 7\<rparr>,
      (new_Process ''P2'' 1 1 None)\<lparr>remaining_time := 0\<rparr>]
   \<and> run_algorithm (RR 1) [new_Process ''P1'' 0 2 None, new_Process ''P2'' 1 1 None]
     = run_algorithm (RR 1)
         [(new_Process ''P1'' 0 2 None)\<lparr>remaining_time := 7\<rparr>,
          (new_Process ''P2'' 1 1 None)\<lparr>remaining_time := 0\<rparr>]"
  using remaining_time_irrelevant
    [of "[new_Process ''P1'' 0 2 None, new_Process ''P2'' 1 1 None]"
        "[(new_Process ''P1'' 0 2 None)\<lparr>remaining_time := 7\<rparr>,
          (new_Process ''P2'' 1 1 None)\<lparr>remaining_time := 0\<rparr>]" "RR 1"]
  by (simp add: same_description_def new_Process_def)

section \<open>Independence of the caller's ordering\<close>

lemma average_mset: "mset xs = mset ys \<Longrightarrow> average xs = average ys"
proof -
  assume m: "mset xs = mset ys"
  then have "sum_list xs = sum_list ys" by (metis sum_mset_sum_list)
  moreover from m have "length xs = length ys" by (rule mset_eq_length)
  moreover from m have "xs = [] \<longleftrightarrow> ys = []" by (metis mset_zero_iff)
  ultimately show ?thesis by (simp add: average_def)
qed


lemma mset_filter_map_cong:
  "mset ps' = mset ps \<Longrightarrow> mset (map f (filter g ps')) = mset (map f (filter g ps))"
  by (metis mset_filter mset_map)

lemma calculate_metrics_mset:
  assumes "mset ps' = mset ps"
  shows "calculate_metrics ps' sched = calculate_metrics ps sched"
proof -
  have t: "average (turnaround_times ct ps') = average (turnaround_times ct ps)" for ct
    unfolding turnaround_times_def by (rule average_mset) (rule mset_filter_map_cong [OF assms])
  have w: "average (waiting_times ct ps') = average (waiting_times ct ps)" for ct
    unfolding waiting_times_def by (rule average_mset) (rule mset_filter_map_cong [OF assms])
  have l: "length ps' = length ps" using assms by (rule mset_eq_length)
  show ?thesis
    unfolding calculate_metrics_def Let_def t w l ..
qed

lemma finish_mset:
  assumes "mset ps' = mset ps"
  shows "finish ps' name st sched = finish ps name st sched"
  by (simp add: finish_def calculate_metrics_mset [OF assms] split: status.splits)

lemma inj_on_pid: "distinct (map pid ps) \<Longrightarrow> inj_on pid (set ps)"
  by (simp add: distinct_map)

lemma inj_on_with_pid:
  assumes "distinct (map pid ps)"
  shows "inj_on (\<lambda>p. (g p, pid p)) (set ps)"
  using inj_on_pid [OF assms] by (auto simp: inj_on_def)

lemma distinct_pid_copies:
  "distinct (map pid (copy_processes ps)) = distinct (map pid ps)"
  by (simp add: copy_processes_map o_def)

lemma sorted_mset:
  assumes "mset ps' = mset ps" and "distinct (map pid ps)"
  shows "sort_key by_arrival ps' = sort_key by_arrival ps"
proof (rule sort_key_eq_sort_key)
  show "mset ps' = mset ps" by fact
  have "set ps' = set ps" using assms(1) by (rule mset_eq_setD)
  then show "inj_on by_arrival (set ps')"
    using inj_on_with_pid [OF assms(2), where g = arrival_time]
    by (simp add: by_arrival_def [abs_def])
qed

lemma sorted_copies_mset:
  assumes "mset ps' = mset ps" and "distinct (map pid ps)"
  shows "sort_key by_arrival (copy_processes ps') = sort_key by_arrival (copy_processes ps)"
  using assms by (intro sorted_mset) (simp_all add: distinct_pid_copies, simp add: copy_processes_map)



lemma min_by_mem: "min_by f b xs \<in> set (b # xs)"
  by (induction xs arbitrary: b) auto

lemma min_by_least: "y \<in> set (b # xs) \<Longrightarrow> f (min_by f b xs) \<le> f y"
proof (induction xs arbitrary: b y)
  case Nil
  then show ?case by simp
next
  case (Cons x xs)
  have le: "f (min_by f b' xs) \<le> f b'" for b'
    using Cons.IH [of b' b'] by simp
  show ?case
  proof (cases "y \<in> set xs")
    case True
    then show ?thesis using Cons.IH [of y] by simp
  next
    case False
    with Cons.prems have "y = b \<or> y = x" by auto
    then show ?thesis
      using le [of x] le [of b] by (auto simp: not_less intro: order_trans)
  qed
qed

lemma min_by_key_eq:
  assumes "set (a # as) = set (c # cs)"
  shows "f (min_by f a as) = f (min_by f c cs)"
proof (rule antisym)
  have "min_by f c cs \<in> set (a # as)" unfolding assms by (rule min_by_mem)
  then show "f (min_by f a as) \<le> f (min_by f c cs)" by (rule min_by_least)
  have "min_by f a as \<in> set (c # cs)" unfolding assms [symmetric] by (rule min_by_mem)
  then show "f (min_by f c cs) \<le> f (min_by f a as)" by (rule min_by_least)
qed

lemma min_by_eq:
  assumes "set (a # as) = set (c # cs)" and "inj_on f (set (a # as))"
  shows "min_by f a as = min_by f c cs"
proof -
  have 1: "min_by f a as \<in> set (a # as)" by (rule min_by_mem)
  have 2: "min_by f c cs \<in> set (a # as)" unfolding assms(1) by (rule min_by_mem)
  from assms(2) min_by_key_eq [OF assms(1), of f] 1 2 show ?thesis
    by (rule inj_onD)
qed


lemma np_step_perm:
  assumes s: "set procs' = set procs" and inj: "inj_on keyf (set procs)"
  shows "np_step keyf procs' s = np_step keyf procs s"
proof -
  let ?P = "\<lambda>p. pid p \<notin> np_completed s \<and> arrival_time p \<le> np_time s"
  let ?Q = "\<lambda>p. pid p \<notin> np_completed s"
  have sA: "set (filter ?P procs') = set (filter ?P procs)"
    and sC: "set (filter ?Q procs') = set (filter ?Q procs)"
    using s by auto
  show ?thesis
  proof (cases "filter ?P procs")
    case Nil
    with sA have A': "filter ?P procs' = []" by simp
    show ?thesis
    proof (cases "filter ?Q procs")
      case C: Nil
      with sC have "filter ?Q procs' = []" by simp
      with Nil A' C show ?thesis by (simp add: np_step_def)
    next
      case C: (Cons c cs)
      with sC obtain c' cs' where C': "filter ?Q procs' = c' # cs'"
        by (cases "filter ?Q procs'") auto
      have "arrival_time (min_by arrival_time c' cs') = arrival_time (min_by arrival_time c cs)"
        using sC C C' by (intro min_by_key_eq) simp
      with Nil A' C C' show ?thesis by (simp add: np_step_def Let_def)
    qed
  next
    case (Cons a as)
    with sA obtain a' as' where A': "filter ?P procs' = a' # as'"
      by (cases "filter ?P procs'") auto
    have "set (a' # as') \<subseteq> set procs"
      using s unfolding A' [symmetric] by auto
    with inj have "inj_on keyf (set (a' # as'))" by (rule inj_on_subset)
    moreover have "set (a' # as') = set (a # as)" using sA Cons A' by simp
    ultimately have "min_by keyf a' as' = min_by keyf a as"
      by (rule min_by_eq [rotated])
    with Cons A' show ?thesis by (simp add: np_step_def Let_def)
  qed
qed



lemma non_preemptive_perm:
  assumes m: "mset ps' = mset ps" and d: "distinct (map pid ps)"
    and inj: "inj_on keyf (set (copy_processes ps))"
  shows "non_preemptive keyf name ps' = non_preemptive keyf name ps"
proof -
  have mc: "mset (copy_processes ps') = mset (copy_processes ps)"
    using m by (simp add: copy_processes_map)
  then have sc: "set (copy_processes ps') = set (copy_processes ps)" by (rule mset_eq_setD)
  have step: "np_step keyf (copy_processes ps') = np_step keyf (copy_processes ps)"
    by (rule ext) (rule np_step_perm [OF sc inj])
  have cond: "np_cond (copy_processes ps') = np_cond (copy_processes ps)"
    using mset_eq_length [OF mc] by (simp add: np_cond_def [abs_def])
  show ?thesis
    by (simp add: non_preemptive_def Let_def step cond finish_mset [OF m])
qed

lemma check_priorities_perm:
  assumes "mset ps' = mset ps"
  shows "check_priorities ps' = None \<longleftrightarrow> check_priorities ps = None"
proof -
  have "set ps' = set ps" using assms by (rule mset_eq_setD)
  then show ?thesis
    by (auto simp: check_priorities_def filter_empty_conv split: list.splits)
qed

lemma check_priorities_Some: "check_priorities ps = Some e \<Longrightarrow> \<exists>i. e = MissingPriority i"
  by (auto simp: check_priorities_def split: list.splits)

text \<open>
  With times as exact rationals and pairwise distinct pids, permuting the input list
  changes nothing: each of the
  six algorithms gives the same outcome (the same schedule, metrics and name when a result
  is returned, no result on either side otherwise). The one thing that can differ is which
  process the missing-priority error names, and an error is not a result.
\<close>

theorem permutation_invariant:
  assumes m: "mset ps' = mset ps" and d: "distinct (map pid ps)"
  shows "run_algorithm a ps' = run_algorithm a ps
         \<or> (\<exists>i j. run_algorithm a ps' = Some (Inl (MissingPriority i))
                \<and> run_algorithm a ps = Some (Inl (MissingPriority j)))"
proof -
  have e: "ps' = [] \<longleftrightarrow> ps = []" using m by (metis mset_zero_iff)
  have srt: "sort_key by_arrival ps' = sort_key by_arrival ps"
    by (rule sorted_mset [OF m d])
  have srtc: "sort_key by_arrival (copy_processes ps') = sort_key by_arrival (copy_processes ps)"
    by (rule sorted_copies_mset [OF m d])
  have dc: "distinct (map pid (copy_processes ps))" using d by (simp add: distinct_pid_copies)
  have pre: "preemptive keyf name ps' = preemptive keyf name ps" for keyf :: "Process \<Rightarrow> 'k::linorder" and name
    by (simp add: preemptive_def srtc finish_mset [OF m])
  have np: "non_preemptive (\<lambda>p. (g p, pid p)) name ps' = non_preemptive (\<lambda>p. (g p, pid p)) name ps"
    for g :: "Process \<Rightarrow> 'k::linorder" and name
    by (rule non_preemptive_perm [OF m d inj_on_with_pid [OF dc]])
  show ?thesis
  proof (cases a)
    case FCFS
    then show ?thesis
      by (simp add: fcfs_scheduling_def e srt calculate_metrics_mset [OF m])
  next
    case SJF_NP
    then show ?thesis by (simp add: sjf_non_preemptive_def e np)
  next
    case SJF_P
    then show ?thesis by (simp add: sjf_preemptive_def e pre)
  next
    case PRIORITY_NP
    show ?thesis
    proof (cases "check_priorities ps")
      case None
      with check_priorities_perm [OF m] have "check_priorities ps' = None" by simp
      with None PRIORITY_NP show ?thesis by (simp add: priority_non_preemptive_def e np)
    next
      case (Some x)
      with check_priorities_perm [OF m] obtain y where y: "check_priorities ps' = Some y" by auto
      from check_priorities_Some [OF Some] check_priorities_Some [OF y] Some y PRIORITY_NP
      show ?thesis by (auto simp: priority_non_preemptive_def e)
    qed
  next
    case PRIORITY_P
    show ?thesis
    proof (cases "check_priorities ps")
      case None
      with check_priorities_perm [OF m] have "check_priorities ps' = None" by simp
      with None PRIORITY_P show ?thesis by (simp add: priority_preemptive_def e pre)
    next
      case (Some x)
      with check_priorities_perm [OF m] obtain y where y: "check_priorities ps' = Some y" by auto
      from check_priorities_Some [OF Some] check_priorities_Some [OF y] Some y PRIORITY_P
      show ?thesis by (auto simp: priority_preemptive_def e)
    qed
  next
    case (RR q)
    have "round_robin ps' q = round_robin ps q"
      unfolding round_robin_def Let_def srtc finish_mset [OF m] e ..
    with RR show ?thesis by simp
  qed
qed

theorem permutation_invariant_witness:
  "mset [new_Process ''P2'' 1 1 None, new_Process ''P1'' 0 3 None]
     = mset [new_Process ''P1'' 0 3 None, new_Process ''P2'' 1 1 None]
   \<and> distinct (map pid [new_Process ''P1'' 0 3 None, new_Process ''P2'' 1 1 None])
   \<and> (run_algorithm SJF_NP [new_Process ''P2'' 1 1 None, new_Process ''P1'' 0 3 None]
        = run_algorithm SJF_NP [new_Process ''P1'' 0 3 None, new_Process ''P2'' 1 1 None]
      \<or> (\<exists>i j. run_algorithm SJF_NP
                   [new_Process ''P2'' 1 1 None, new_Process ''P1'' 0 3 None]
                 = Some (Inl (MissingPriority i))
               \<and> run_algorithm SJF_NP
                   [new_Process ''P1'' 0 3 None, new_Process ''P2'' 1 1 None]
                 = Some (Inl (MissingPriority j))))"
proof -
  have m: "mset [new_Process ''P2'' 1 1 None, new_Process ''P1'' 0 3 None]
     = mset [new_Process ''P1'' 0 3 None, new_Process ''P2'' 1 1 None]"
    by simp
  have d: "distinct (map pid [new_Process ''P1'' 0 3 None, new_Process ''P2'' 1 1 None])"
    by (simp add: new_Process_def)
  from m d permutation_invariant [OF m d, of SJF_NP] show ?thesis by blast
qed

section \<open>Chronological schedules\<close>

lemma contiguous_le: "contiguous a sched b \<Longrightarrow> a \<le> b"
  by (induction a sched b rule: contiguous.induct) auto

lemma contiguous_less: "contiguous a sched b \<Longrightarrow> sched \<noteq> [] \<Longrightarrow> a < b"
proof (cases sched)
  case Nil
  then show "sched \<noteq> [] \<Longrightarrow> a < b" by simp
next
  case (Cons x xs)
  obtain p s e where x: "x = (p, s, e)" by (cases x)
  assume "contiguous a sched b"
  then have "a < e" and "contiguous e xs b" by (simp_all add: Cons x)
  with contiguous_le [of e xs b] show "a < b" by simp
qed

lemma contiguous_append:
  "contiguous a (xs @ ys) c \<longleftrightarrow> (\<exists>b. contiguous a xs b \<and> contiguous b ys c)"
  by (induction a xs c rule: contiguous.induct) auto

lemma contiguous_snoc:
  "contiguous a sched b \<Longrightarrow> b < c \<Longrightarrow> contiguous a (sched @ [(p, b, c)]) c"
  by (auto simp: contiguous_append)

lemma contiguous_last:
  "contiguous a sched b \<Longrightarrow> sched \<noteq> [] \<Longrightarrow> entry_end (last sched) = b"
  by (induction a sched b rule: contiguous.induct) (auto simp: entry_end_def)

lemma contiguous_hd:
  "contiguous a sched b \<Longrightarrow> sched \<noteq> [] \<Longrightarrow> entry_start (hd sched) = a"
  by (cases sched) (auto simp: entry_start_def)

lemma contiguous_extend:
  assumes "contiguous a sched b" and "sched \<noteq> []" and "b < c"
  shows "contiguous a (butlast sched @ [(p, fst (snd (last sched)), c)]) c"
proof -
  obtain xs q s e where sched: "sched = xs @ [(q, s, e)]"
    using assms(2) by (metis append_butlast_last_id prod_cases3)
  from assms(1) obtain m where m: "contiguous a xs m" "contiguous m [(q, s, e)] b"
    unfolding sched contiguous_append by blast
  then have "s = m" "s < e" "e = b" by auto
  with m(1) assms(3) have "contiguous a (xs @ [(p, s, c)]) c"
    by (auto simp: contiguous_append)
  then show ?thesis by (simp add: sched)
qed

lemma contiguous_record_run:
  assumes "contiguous a sched b" and "b < c"
  shows "contiguous a (record_run sched p b c) c"
  using assms contiguous_snoc [OF assms] contiguous_extend [OF assms(1) _ assms(2)]
  by (simp add: record_run_def)

lemma record_run_not_Nil [simp]: "record_run sched p b c \<noteq> []"
  by (simp add: record_run_def)

lemma contiguous_bounds:
  "contiguous a sched b \<Longrightarrow> e \<in> set sched \<Longrightarrow>
     a \<le> entry_start e \<and> entry_start e < entry_end e \<and> entry_end e \<le> b"
proof (induction a sched b rule: contiguous.induct)
  case (1 a b)
  then show ?case by simp
next
  case (2 a p s e' es b)
  then show ?case
    using contiguous_le [of e' es b]
    by (auto simp: entry_start_def entry_end_def)
qed

lemma contiguous_sorted: "contiguous a sched b \<Longrightarrow> sorted (map entry_start sched)"
proof (induction a sched b rule: contiguous.induct)
  case (1 a b)
  then show ?case by simp
next
  case (2 a p s e es b)
  then have "\<forall>x\<in>set es. s \<le> entry_start x"
    using contiguous_bounds [of e es b] by fastforce
  with 2 show ?case by (simp add: entry_start_def)
qed

lemma contiguous_adjacent:
  "contiguous a sched b \<Longrightarrow> Suc i < length sched \<Longrightarrow>
     entry_end (sched ! i) = entry_start (sched ! Suc i)"
proof (induction a sched b arbitrary: i rule: contiguous.induct)
  case (1 a b)
  then show ?case by simp
next
  case (2 a p s e es b)
  show ?case
  proof (cases i)
    case 0
    with 2 show ?thesis by (cases es) (auto simp: entry_start_def entry_end_def)
  next
    case (Suc k)
    with 2 show ?thesis by simp
  qed
qed

lemma contiguous_apart:
  "contiguous a sched b \<Longrightarrow> i < j \<Longrightarrow> j < length sched \<Longrightarrow>
     entry_end (sched ! i) \<le> entry_start (sched ! j)"
proof (induction a sched b arbitrary: i j rule: contiguous.induct)
  case (1 a b)
  then show ?case by simp
next
  case (2 a p s e es b)
  from "2.prems" obtain j' where j: "j = Suc j'" by (cases j) auto
  show ?case
  proof (cases i)
    case 0
    have "es ! j' \<in> set es" using "2.prems" j by simp
    with 2 have "e \<le> entry_start (es ! j')"
      using contiguous_bounds [of e es b "es ! j'"] by simp
    with 0 j show ?thesis by (simp add: entry_end_def)
  next
    case (Suc k)
    with 2 j show ?thesis by simp
  qed
qed

lemma contiguous_chronological: "contiguous a sched b \<Longrightarrow> chronological sched"
  unfolding chronological_def
  using contiguous_bounds contiguous_sorted contiguous_adjacent contiguous_apart
  by blast

lemma contiguous_covers_from:
  "contiguous a sched b \<Longrightarrow> sched \<noteq> [] \<Longrightarrow> a \<le> x \<Longrightarrow> x \<le> b \<Longrightarrow>
     \<exists>e\<in>set sched. entry_start e \<le> x \<and> x \<le> entry_end e"
proof (induction a sched b rule: contiguous.induct)
  case (1 a b)
  then show ?case by simp
next
  case (2 a p s e es b)
  show ?case
  proof (cases "x \<le> e")
    case True
    with 2 show ?thesis by (auto simp: entry_start_def entry_end_def)
  next
    case False
    with "2.prems" have "es \<noteq> []" by (cases es) auto
    with 2 False show ?thesis by auto
  qed
qed

lemma contiguous_covers: "contiguous 0 sched b \<Longrightarrow> sched \<noteq> [] \<Longrightarrow> covers sched b"
  unfolding covers_def using contiguous_covers_from by blast

lemma foldl_max_ge: "(m::rat) \<le> foldl max m xs"
  by (induction xs arbitrary: m) (auto intro: order_trans [OF max.cobounded1])

lemma foldl_max_last:
  "sorted (m # xs) \<Longrightarrow> foldl max (m::rat) xs = last (m # xs)"
  by (induction xs arbitrary: m) (auto simp: max_def)

lemma contiguous_sorted_ends: "contiguous a sched b \<Longrightarrow> sorted (map entry_end sched)"
proof (induction a sched b rule: contiguous.induct)
  case (1 a b)
  then show ?case by simp
next
  case (2 a p s e es b)
  then have "\<forall>x\<in>set es. e \<le> entry_end x"
    using contiguous_bounds [of e es b] by fastforce
  with 2 show ?case by (simp add: entry_end_def)
qed

lemma contiguous_total_time:
  assumes "contiguous a sched b" and "sched \<noteq> []"
  shows "total_time sched = b"
proof -
  have ends: "map (\<lambda>(p, start_time, end_time). end_time) sched = map entry_end sched"
    by (simp add: entry_end_def split_def)
  obtain x xs where x: "map entry_end sched = x # xs"
    using assms(2) by (cases sched) auto
  have "total_time sched = foldl max x xs"
    by (simp add: total_time_def ends x)
  also have "\<dots> = last (x # xs)"
    using contiguous_sorted_ends [OF assms(1)] by (intro foldl_max_last) (simp add: x)
  also have "\<dots> = entry_end (last sched)"
    using assms(2) by (simp add: x [symmetric] last_map)
  finally show ?thesis by (simp add: contiguous_last [OF assms])
qed

lemma fcfs_loop_keeps: "sched \<noteq> [] \<Longrightarrow> fcfs_loop ps sched t \<noteq> []"
  by (induction ps arbitrary: sched t) (simp_all add: Let_def)

lemma fcfs_loop_not_Nil: "ps \<noteq> [] \<Longrightarrow> fcfs_loop ps sched t \<noteq> []"
  by (cases ps) (simp_all add: Let_def fcfs_loop_keeps)

lemma fcfs_loop_contiguous:
  "contiguous 0 sched t \<Longrightarrow> \<forall>p\<in>set ps. 0 < burst_time p \<Longrightarrow>
     \<exists>t'. contiguous 0 (fcfs_loop ps sched t) t'"
proof (induction ps arbitrary: sched t)
  case Nil
  then show ?case by auto
next
  case (Cons p ps)
  define t1 where "t1 = (if t < arrival_time p then arrival_time p else t)"
  define sched1 where
    "sched1 = (if t < arrival_time p then sched @ [(IDLE, t, arrival_time p)] else sched)"
  have c1: "contiguous 0 sched1 t1"
    using Cons.prems(1) by (simp add: sched1_def t1_def contiguous_snoc)
  have "t1 < t1 + burst_time p" using Cons.prems(2) by simp
  with c1 have "contiguous 0 (sched1 @ [(pid p, t1, t1 + burst_time p)]) (t1 + burst_time p)"
    by (rule contiguous_snoc)
  with Cons.IH [of "sched1 @ [(pid p, t1, t1 + burst_time p)]" "t1 + burst_time p"] Cons.prems(2)
  have "\<exists>t'. contiguous 0 (fcfs_loop ps (sched1 @ [(pid p, t1, t1 + burst_time p)])
                 (t1 + burst_time p)) t'"
    by simp
  then show ?case by (auto simp: Let_def sched1_def t1_def split: if_splits)
qed

lemma admit_eq:
  "admit push procs t i q =
     (foldl push q (takeWhile (\<lambda>p. arrival_time p \<le> t) (drop i procs)),
      i + length (takeWhile (\<lambda>p. arrival_time p \<le> t) (drop i procs)))"
proof (induction push procs t i q rule: admit.induct)
  case (1 push procs t i q)
  show ?case
  proof (cases "i < length procs \<and> arrival_time (procs ! i) \<le> t")
    case True
    then have d: "drop i procs = procs ! i # drop (Suc i) procs"
      by (simp add: Cons_nth_drop_Suc)
    from True 1 show ?thesis
      by (subst admit.simps) (simp add: d)
  next
    case False
    then have "takeWhile (\<lambda>p. arrival_time p \<le> t) (drop i procs) = []"
      by (cases "i < length procs") (auto simp: takeWhile_eq_Nil_iff hd_drop_conv_nth)
    with False show ?thesis by (subst admit.simps) auto
  qed
qed

lemma admit_next_later:
  assumes "admit push procs t i q = (q', i')" and "i' < length procs"
  shows "t < arrival_time (procs ! i')"
proof -
  let ?P = "\<lambda>p. arrival_time p \<le> t"
  let ?xs = "drop i procs"
  from assms(1) have i': "i' = i + length (takeWhile ?P ?xs)" by (simp add: admit_eq)
  with assms(2) have lt: "length (takeWhile ?P ?xs) < length ?xs" by simp
  then have "\<not> ?P (?xs ! length (takeWhile ?P ?xs))" by (rule nth_length_takeWhile)
  moreover have "?xs ! length (takeWhile ?P ?xs) = procs ! i'"
    using assms(2) i' by simp
  ultimately show ?thesis by simp
qed

lemma admit_idx: "admit push procs t i q = (q', i') \<Longrightarrow> i \<le> i'"
  by (auto simp: admit_eq)

lemma np_step_status: "np_status (np_step keyf procs s) = Running \<Longrightarrow> np_status s = Running"
  by (auto simp: np_step_def Let_def split: list.splits)

lemma np_step_inv:
  assumes inv: "np_inv s" and pos: "\<forall>p\<in>set procs. 0 < burst_time p"
  shows "np_inv (np_step keyf procs s)"
proof -
  let ?P = "\<lambda>p. pid p \<notin> np_completed s \<and> arrival_time p \<le> np_time s"
  let ?Q = "\<lambda>p. pid p \<notin> np_completed s"
  from inv have c: "contiguous 0 (np_schedule s) (np_time s)"
    and ne: "np_completed s \<noteq> {} \<longrightarrow> np_schedule s \<noteq> []"
    by (simp_all add: np_inv_def)
  show ?thesis
  proof (cases "filter ?P procs")
    case Nil
    show ?thesis
    proof (cases "filter ?Q procs")
      case C: Nil
      with Nil inv show ?thesis by (simp add: np_step_def np_inv_def)
    next
      case C: (Cons x xs)
      define n where "n = min_by arrival_time x xs"
      have "n \<in> set (filter ?Q procs)" unfolding C n_def by (rule min_by_mem)
      then have "n \<in> set procs" "?Q n" by auto
      moreover from Nil have "\<forall>p\<in>set procs. \<not> ?P p" by (simp add: filter_empty_conv)
      ultimately have "np_time s < arrival_time n" by auto
      with c have "contiguous 0 (np_schedule s @ [(IDLE, np_time s, arrival_time n)])
                     (arrival_time n)"
        by (rule contiguous_snoc)
      with Nil C show ?thesis by (simp add: np_step_def np_inv_def Let_def n_def)
    qed
  next
    case (Cons a as)
    define sel where "sel = min_by keyf a as"
    have "sel \<in> set (filter ?P procs)" unfolding Cons sel_def by (rule min_by_mem)
    then have "sel \<in> set procs" by simp
    with pos have "np_time s < np_time s + burst_time sel" by simp
    with c have "contiguous 0 (np_schedule s @ [(pid sel, np_time s, np_time s + burst_time sel)])
                   (np_time s + burst_time sel)"
      by (rule contiguous_snoc)
    with Cons show ?thesis by (simp add: np_step_def np_inv_def Let_def sel_def)
  qed
qed

lemma non_preemptive_chrono:
  assumes res: "non_preemptive keyf name ps = Some (Inr r)"
    and pos: "\<forall>p\<in>set ps. 0 < burst_time p" and ne: "ps \<noteq> []"
  shows "\<exists>t. contiguous 0 (schedule r) t \<and> schedule r \<noteq> []
             \<and> metrics r = calculate_metrics ps (schedule r)"
proof -
  let ?procs = "copy_processes ps"
  from res obtain s where
    w: "while_option (np_cond ?procs) (np_step keyf ?procs) np_init = Some s"
    and f: "finish ps name (np_status s) (np_schedule s) = Inr r"
    by (auto simp: non_preemptive_def Let_def)
  have pos': "\<forall>p\<in>set ?procs. 0 < burst_time p"
    using pos by (simp add: copy_processes_map)
  have "np_inv s"
  proof (rule while_option_rule [where P = np_inv, OF _ w])
    show "np_inv np_init" by (simp add: np_inv_def np_init_def)
  next
    fix s assume "np_inv s"
    then show "np_inv (np_step keyf ?procs s)" by (rule np_step_inv [OF _ pos'])
  qed
  moreover from while_option_stop [OF w] have "\<not> np_cond ?procs s" .
  moreover from f have st: "\<forall>e. np_status s \<noteq> Raised e" and r: "r = \<lparr>schedule = np_schedule s, metrics = calculate_metrics ps (np_schedule s), algorithm_name = name\<rparr>"
    by (auto simp: finish_def split: status.splits)
  have run: "np_status s \<noteq> Broke"
    using w
    by (rule while_option_rule [where P = "\<lambda>s. np_status s \<noteq> Broke", rotated])
       (auto simp: np_init_def np_step_def Let_def split: list.splits)
  ultimately have "np_completed s \<noteq> {}"
    using ne st by (cases "np_status s") (auto simp: np_cond_def copy_processes_map)
  with \<open>np_inv s\<close> show ?thesis by (auto simp: np_inv_def r)
qed

lemma heappop_None [simp]: "heappop q = None \<longleftrightarrow> q = []"
  by (simp add: heappop_def Let_def split: list.splits)

lemma heappop_Some:
  assumes "heappop q = Some (m, rest)"
  shows "m \<in> set q" and "set rest \<subseteq> set q"
proof -
  from assms obtain x xs where q: "q = x # xs" by (cases q) (auto simp: heappop_def)
  from assms have m: "m = min_by (\<lambda>e. (fst e, fst (snd e))) x xs" and r: "rest = remove1 m q"
    by (auto simp: heappop_def q Let_def)
  show "m \<in> set q" unfolding m q by (rule min_by_mem)
  show "set rest \<subseteq> set q" unfolding r by (rule set_remove1_subset)
qed

lemma set_heappush [simp]: "set (heappush q x) = insert x (set q)"
  by (simp add: heappush_def)

lemma set_foldl_heappush:
  "set (foldl (\<lambda>q p. heappush q (g p)) q xs) = set q \<union> g ` set xs"
  by (induction xs arbitrary: q) auto

lemma set_foldl_rr_append: "set (foldl rr_append q xs) = set q \<union> set xs"
  by (induction xs arbitrary: q) (auto simp: rr_append_def)

lemma set_admitted: "set (takeWhile P (drop i procs)) \<subseteq> set procs"
  by (meson set_takeWhileD in_set_dropD subsetI)

lemma p_select_props:
  assumes ok: "p_ok s" and pos: "\<forall>p\<in>set procs. 0 < remaining_time p"
    and sel: "p_select keyf procs s = (rq3, i1, cur)"
  shows "\<forall>x\<in>set rq3. 0 < remaining_time (snd (snd x))"
    and "\<And>c. cur = Some c \<Longrightarrow> 0 < remaining_time c"
    and "cur = None \<Longrightarrow> p_current s = None \<Longrightarrow> p_ready s = [] \<Longrightarrow> p_idx s = 0 \<Longrightarrow>
           procs \<noteq> [] \<Longrightarrow> i1 < length procs"
proof -
  let ?push = "\<lambda>q p. heappush q (keyf p, pid p, p)"
  let ?tw = "takeWhile (\<lambda>p. arrival_time p \<le> p_time s) (drop (p_idx s) procs)"
  define rq1 where "rq1 = foldl ?push (p_ready s) ?tw"
  have adm: "admit ?push procs (p_time s) (p_idx s) (p_ready s) = (rq1, p_idx s + length ?tw)"
    by (simp add: admit_eq rq1_def)
  have set1: "set rq1 = set (p_ready s) \<union> (\<lambda>p. (keyf p, pid p, p)) ` set ?tw"
    unfolding rq1_def by (rule set_foldl_heappush)
  have pos1: "\<forall>x\<in>set rq1. 0 < remaining_time (snd (snd x))"
    using ok pos set_admitted [of "\<lambda>p. arrival_time p \<le> p_time s" "p_idx s" procs]
    by (auto simp: set1 p_ok_def)
  from ok have posc: "\<And>c. p_current s = Some c \<Longrightarrow> 0 < remaining_time c"
    by (simp add: p_ok_def)
  have i1: "i1 = p_idx s + length ?tw"
    using sel by (simp add: p_select_def adm Let_def split: option.splits prod.splits)
  show "\<forall>x\<in>set rq3. 0 < remaining_time (snd (snd x))"
  proof (cases "heappop rq1")
    case None
    with sel pos1 posc show ?thesis
      by (auto simp: p_select_def adm Let_def split: option.splits if_splits)
  next
    case (Some a)
    obtain m rest where a: "a = (m, rest)" by (cases a)
    from heappop_Some [OF Some [unfolded a]] pos1
    have "\<forall>x\<in>set rest. 0 < remaining_time (snd (snd x))" by auto
    with sel Some a posc show ?thesis
      by (auto simp: p_select_def adm Let_def split: option.splits if_splits prod.splits)
  qed
  show "0 < remaining_time c" if "cur = Some c" for c
  proof (cases "heappop rq1")
    case None
    with sel posc that show ?thesis
      by (auto simp: p_select_def adm Let_def split: option.splits if_splits)
  next
    case (Some a)
    obtain m rest where a: "a = (m, rest)" by (cases a)
    obtain k i p where m: "m = (k, i, p)" by (cases m)
    from heappop_Some(1) [OF Some [unfolded a]] pos1 have "0 < remaining_time p"
      by (auto simp: m)
    with sel Some a m posc that show ?thesis
      by (auto simp: p_select_def adm Let_def split: option.splits if_splits)
  qed
  show "i1 < length procs"
    if "cur = None" "p_current s = None" "p_ready s = []" "p_idx s = 0" "procs \<noteq> []"
  proof (rule ccontr)
    assume "\<not> i1 < length procs"
    with that i1 have "?tw \<noteq> []" by auto
    then have "rq1 \<noteq> []" using set1 by (cases ?tw) auto
    then obtain a where a: "heappop rq1 = Some a" by (cases "heappop rq1") auto
    obtain k i p rest where "a = ((k, i, p), rest)" by (metis prod_cases3 surj_pair)
    with a sel that(2) have "cur = Some p"
      by (simp add: p_select_def adm Let_def)
    with that(1) show False by simp
  qed
qed

lemma p_step_inv:
  assumes inv: "p_inv s" and run: "p_status s = Running"
    and pos: "\<forall>p\<in>set procs. 0 < remaining_time p" and ne: "procs \<noteq> []"
  shows "p_inv (p_step keyf procs s)"
proof -
  from inv run have ok: "p_ok s" by (simp add: p_inv_def)
  obtain rq3 i1 cur where sel: "p_select keyf procs s = (rq3, i1, cur)"
    by (cases "p_select keyf procs s") auto
  note props = p_select_props [OF ok pos sel]
  from ok have c: "contiguous 0 (p_schedule s) (p_time s)" by (simp add: p_ok_def)
  show ?thesis
  proof (cases cur)
    case None
    show ?thesis
    proof (cases "i1 < length procs")
      case True
      with None sel show ?thesis by (simp add: p_step_def p_inv_def)
    next
      case False
      with props(3) [OF None _ _ _ ne] ok have "p_schedule s \<noteq> []"
        by (auto simp: p_ok_def)
      with None False sel c props(1) show ?thesis
        by (simp add: p_step_def p_inv_def p_ok_def)
    qed
  next
    case (Some c0)
    from props(2) [OF Some] have r: "0 < remaining_time c0" .
    define e where "e = min 1 (remaining_time c0)"
    have e: "0 < e" "e \<le> remaining_time c0" using r by (simp_all add: e_def)
    have ex: "execute c0 1 = (e, c0\<lparr>remaining_time := remaining_time c0 - e\<rparr>)"
      by (simp add: execute_def e_def Let_def)
    from c e(1) have c': "contiguous 0 (record_run (p_schedule s) (pid c0) (p_time s) (p_time s + e))
                            (p_time s + e)"
      by (intro contiguous_record_run) simp_all
    from Some sel ex c' props(1) e run show ?thesis
      by (auto simp: p_step_def p_inv_def p_ok_def Let_def is_completed_def)
  qed
qed

lemma preemptive_chrono:
  assumes res: "preemptive keyf name ps = Some (Inr r)"
    and pos: "\<forall>p\<in>set ps. 0 < burst_time p" and ne: "ps \<noteq> []"
  shows "\<exists>t. contiguous 0 (schedule r) t \<and> schedule r \<noteq> []
             \<and> metrics r = calculate_metrics ps (schedule r)"
proof -
  let ?procs = "sort_key by_arrival (copy_processes ps)"
  from res obtain s where
    w: "while_option (p_cond ?procs) (p_step keyf ?procs) p_init = Some s"
    and f: "finish ps name (p_status s) (p_schedule s) = Inr r"
    by (auto simp: preemptive_def Let_def)
  have pos': "\<forall>p\<in>set ?procs. 0 < remaining_time p"
    using pos by (auto simp: copy_processes_map)
  have ne': "?procs \<noteq> []" using ne by (metis copy_processes_Nil length_sort length_0_conv)
  have "p_inv s"
  proof (rule while_option_rule [where P = p_inv, OF _ w])
    show "p_inv (p_init :: 'a p_state)" by (simp add: p_inv_def p_ok_def p_init_def)
  next
    fix s :: "'a p_state" assume "p_inv s" "p_cond ?procs s"
    then show "p_inv (p_step keyf ?procs s)"
      by (intro p_step_inv [OF _ _ pos' ne']) (simp_all add: p_cond_def)
  qed
  moreover from f have st: "\<forall>e. p_status s \<noteq> Raised e"
    and r: "r = \<lparr>schedule = p_schedule s, metrics = calculate_metrics ps (p_schedule s),
                 algorithm_name = name\<rparr>"
    by (auto simp: finish_def split: status.splits)
  ultimately have ok: "p_ok s" by (simp add: p_inv_def)
  have "\<not> p_cond ?procs s" using while_option_stop [OF w] .
  moreover from ne have "0 < length ?procs" by (simp add: copy_processes_map)
  ultimately have "p_schedule s \<noteq> []"
    using ok by (auto simp: p_cond_def p_ok_def)
  with ok show ?thesis by (auto simp: p_ok_def r)
qed

lemma admit_rr_pos:
  assumes "admit rr_append procs t i q = (q', i')"
    and "\<forall>p\<in>set q. 0 < remaining_time p" and "\<forall>p\<in>set procs. 0 < remaining_time p"
  shows "\<forall>p\<in>set q'. 0 < remaining_time p"
proof -
  from assms(1) have "q' = foldl rr_append q (takeWhile (\<lambda>p. arrival_time p \<le> t) (drop i procs))"
    by (simp add: admit_eq)
  then have "set q' \<subseteq> set q \<union> set procs"
    using set_admitted [of "\<lambda>p. arrival_time p \<le> t" i procs]
    by (auto simp: set_foldl_rr_append)
  with assms(2,3) show ?thesis by auto
qed

lemma rr_run_inv:
  assumes c: "contiguous 0 sched t" and posq: "\<forall>p\<in>set q. 0 < remaining_time p"
    and pos: "\<forall>p\<in>set procs. 0 < remaining_time p" and tq: "0 < time_quantum"
    and run: "rr_status s = Running"
  shows "rr_inv procs (rr_run time_quantum procs sched t q i s)"
proof (cases q)
  case Nil
  then show ?thesis by (simp add: rr_run_def rr_inv_def)
next
  case (Cons p rest)
  from posq Cons have r: "0 < remaining_time p" and posr: "\<forall>x\<in>set rest. 0 < remaining_time x"
    by simp_all
  define e where "e = min time_quantum (remaining_time p)"
  have e: "0 < e" "e \<le> remaining_time p" using r tq by (simp_all add: e_def)
  have ex: "execute p time_quantum = (e, p\<lparr>remaining_time := remaining_time p - e\<rparr>)"
    by (simp add: execute_def e_def Let_def)
  obtain q' i' where adm: "admit rr_append procs (t + e) i rest = (q', i')"
    by (cases "admit rr_append procs (t + e) i rest") auto
  have posq': "\<forall>x\<in>set q'. 0 < remaining_time x"
    by (rule admit_rr_pos [OF adm posr pos])
  have later: "i' < length procs \<longrightarrow> t + e < arrival_time (procs ! i')"
    using admit_next_later [OF adm] by simp
  from c e(1) have c': "contiguous 0 (record_run sched (pid p) t (t + e)) (t + e)"
    by (intro contiguous_record_run) simp_all
  from Cons ex adm posq' later c' e run show ?thesis
    by (auto simp: rr_run_def rr_inv_def rr_ok_def Let_def is_completed_def rr_append_def)
qed

lemma rr_step_inv:
  assumes inv: "rr_inv procs s" and run: "rr_status s = Running"
    and pos: "\<forall>p\<in>set procs. 0 < remaining_time p" and tq: "0 < time_quantum"
  shows "rr_inv procs (rr_step time_quantum procs s)"
proof -
  from inv run have ok: "rr_ok procs s" by (simp add: rr_inv_def)
  then have c: "contiguous 0 (rr_schedule s) (rr_time s)"
    and posq: "\<forall>p\<in>set (rr_ready s). 0 < remaining_time p"
    by (simp_all add: rr_ok_def)
  show ?thesis
  proof (cases "rr_ready s = []")
    case False
    then show ?thesis
      using rr_run_inv [OF c posq pos tq run, where i = "rr_idx s"]
      by (simp add: rr_step_def)
  next
    case True
    show ?thesis
    proof (cases "rr_idx s < length procs")
      case False
      with True ok show ?thesis
        by (auto simp: rr_step_def rr_inv_def rr_ok_def)
    next
      case idx: True
      define n where "n = arrival_time (procs ! rr_idx s)"
      from ok idx have "rr_time s < n" by (simp add: rr_ok_def n_def)
      with c have c1: "contiguous 0 (rr_schedule s @ [(IDLE, rr_time s, n)]) n"
        by (rule contiguous_snoc)
      obtain q i where adm: "admit rr_append procs n (rr_idx s) (rr_ready s) = (q, i)"
        by (cases "admit rr_append procs n (rr_idx s) (rr_ready s)") auto
      have posq': "\<forall>x\<in>set q. 0 < remaining_time x"
        by (rule admit_rr_pos [OF adm posq pos])
      from True idx adm show ?thesis
        using rr_run_inv [OF c1 posq' pos tq run, where i = i]
        by (simp add: rr_step_def Let_def n_def)
    qed
  qed
qed

lemma rr_init_inv:
  assumes pos: "\<forall>p\<in>set procs. 0 < remaining_time p" and ne: "procs \<noteq> []"
  shows "rr_inv procs (rr_init procs)"
proof -
  let ?tw = "takeWhile (\<lambda>p. arrival_time p \<le> 0) (drop 0 procs)"
  obtain q i where adm: "admit rr_append procs 0 0 [] = (q, i)"
    by (cases "admit rr_append procs 0 0 ([] :: Process list)") auto
  have posq: "\<forall>x\<in>set q. 0 < remaining_time x"
    by (rule admit_rr_pos [OF adm _ pos]) simp
  have later: "i < length procs \<longrightarrow> 0 < arrival_time (procs ! i)"
    using admit_next_later [OF adm] by simp
  from adm have q: "q = foldl rr_append [] ?tw" and i: "i = length ?tw"
    by (simp_all add: admit_eq)
  have "q \<noteq> [] \<or> i < length procs"
  proof (cases "?tw = []")
    case True
    with i ne show ?thesis by simp
  next
    case False
    then have "set q \<noteq> {}" unfolding q set_foldl_rr_append by simp
    then show ?thesis by auto
  qed
  with posq later adm show ?thesis
    by (simp add: rr_init_def rr_inv_def rr_ok_def)
qed

lemma round_robin_chrono:
  assumes res: "round_robin ps time_quantum = Some (Inr r)"
    and pos: "\<forall>p\<in>set ps. 0 < burst_time p" and ne: "ps \<noteq> []"
  shows "\<exists>t. contiguous 0 (schedule r) t \<and> schedule r \<noteq> []
             \<and> metrics r = calculate_metrics ps (schedule r)"
proof -
  let ?procs = "sort_key by_arrival (copy_processes ps)"
  from res ne have tq: "0 < time_quantum"
    by (auto simp: round_robin_def split: if_splits)
  with res ne obtain s where
    w: "while_option (rr_cond ?procs) (rr_step time_quantum ?procs) (rr_init ?procs) = Some s"
    and f: "finish ps (RoundRobinQuantum time_quantum) (rr_status s) (rr_schedule s) = Inr r"
    by (auto simp: round_robin_def Let_def)
  have pos': "\<forall>p\<in>set ?procs. 0 < remaining_time p"
    using pos by (auto simp: copy_processes_map)
  have len: "0 < length ?procs" using ne by (simp add: copy_processes_map)
  then have ne': "?procs \<noteq> []" unfolding length_greater_0_conv .
  have "rr_inv ?procs s"
  proof (rule while_option_rule [where P = "rr_inv ?procs", OF _ w])
    show "rr_inv ?procs (rr_init ?procs)" by (rule rr_init_inv [OF pos' ne'])
  next
    fix s assume "rr_inv ?procs s" "rr_cond ?procs s"
    then show "rr_inv ?procs (rr_step time_quantum ?procs s)"
      by (intro rr_step_inv [OF _ _ pos' tq]) (simp_all add: rr_cond_def)
  qed
  moreover from f have st: "\<forall>e. rr_status s \<noteq> Raised e"
    and r: "r = \<lparr>schedule = rr_schedule s, metrics = calculate_metrics ps (rr_schedule s),
                 algorithm_name = RoundRobinQuantum time_quantum\<rparr>"
    by (auto simp: finish_def split: status.splits)
  ultimately have ok: "rr_ok ?procs s" by (simp add: rr_inv_def)
  have "\<not> rr_cond ?procs s" using while_option_stop [OF w] .
  with len have "rr_schedule s \<noteq> []"
    using ok by (auto simp: rr_cond_def rr_ok_def)
  with ok show ?thesis by (auto simp: rr_ok_def r)
qed

lemma contiguous_summary:
  assumes "contiguous 0 sched t" and "sched \<noteq> []"
  shows "chronological sched \<and> entry_start (hd sched) = 0
         \<and> entry_end (last sched) = total_time sched \<and> covers sched (total_time sched)"
  using assms contiguous_chronological [OF assms(1)] contiguous_hd [OF assms]
    contiguous_last [OF assms] contiguous_total_time [OF assms] contiguous_covers [OF assms]
  by simp

lemma fcfs_chrono:
  assumes res: "fcfs_scheduling ps = Inr r"
    and pos: "\<forall>p\<in>set ps. 0 < burst_time p" and ne: "ps \<noteq> []"
  shows "\<exists>t. contiguous 0 (schedule r) t \<and> schedule r \<noteq> []
             \<and> metrics r = calculate_metrics ps (schedule r)"
proof -
  let ?s = "sort_key by_arrival ps"
  from res ne have r: "schedule r = fcfs_loop ?s [] 0"
    "metrics r = calculate_metrics ps (fcfs_loop ?s [] 0)"
    by (auto simp: fcfs_scheduling_def Let_def)
  have "?s \<noteq> []" using ne by (metis length_sort length_0_conv)
  then have "fcfs_loop ?s [] 0 \<noteq> []" by (rule fcfs_loop_not_Nil)
  moreover have "\<exists>t. contiguous 0 (fcfs_loop ?s [] 0) t"
    using pos by (intro fcfs_loop_contiguous) simp_all
  ultimately show ?thesis by (simp add: r)
qed

lemma empty_input_result:
  assumes "run_algorithm a [] = Some (Inr r)"
  shows "schedule r = [] \<and> metrics r = Map.empty"
  using assms
  by (cases a)
     (auto simp: fcfs_scheduling_def sjf_non_preemptive_def sjf_preemptive_def
        priority_non_preemptive_def priority_preemptive_def round_robin_def empty_result_def)

lemma nonempty_input_contiguous:
  assumes res: "run_algorithm a ps = Some (Inr r)"
    and pos: "\<forall>p\<in>set ps. 0 < burst_time p" and ne: "ps \<noteq> []"
  shows "\<exists>t. contiguous 0 (schedule r) t \<and> schedule r \<noteq> []
             \<and> metrics r = calculate_metrics ps (schedule r)"
proof (cases a)
  case FCFS
  with res show ?thesis by (intro fcfs_chrono [OF _ pos ne]) simp
next
  case SJF_NP
  with res ne show ?thesis
    by (intro non_preemptive_chrono [OF _ pos ne]) (simp add: sjf_non_preemptive_def)
next
  case SJF_P
  with res ne show ?thesis
    by (intro preemptive_chrono [OF _ pos ne]) (simp add: sjf_preemptive_def)
next
  case PRIORITY_NP
  with res ne have "non_preemptive (\<lambda>p. (the (priority p), pid p))
      (Name ''Priority (Non-Preemptive)'') ps = Some (Inr r)"
    by (auto simp: priority_non_preemptive_def split: option.splits)
  then show ?thesis by (rule non_preemptive_chrono [OF _ pos ne])
next
  case PRIORITY_P
  with res ne have "preemptive (\<lambda>p. the (priority p)) (Name ''Priority (Preemptive)'') ps
      = Some (Inr r)"
    by (auto simp: priority_preemptive_def split: option.splits)
  then show ?thesis by (rule preemptive_chrono [OF _ pos ne])
next
  case (RR q)
  with res show ?thesis by (intro round_robin_chrono [OF _ pos ne]) simp
qed

text \<open>
  With times as exact rationals, for each of the six algorithms and every valid input, a
  returned result has a
  chronological schedule: every entry starts strictly before it ends, entries are sorted by
  start time, do not overlap, and each entry ends where the next one starts. For a
  non-empty input the schedule is non-empty, starts at 0, ends at \<open>total_time\<close> (the
  reducer's maximum end time, which the metrics report rounded to two decimals) and its
  spans cover the whole of [0, \<open>total_time\<close>]; for the empty input the schedule and the
  metrics are empty.
\<close>

theorem schedules_chronological:
  assumes "valid_input a ps" and "run_algorithm a ps = Some (Inr r)"
  shows "chronological (schedule r)
         \<and> (ps = [] \<longrightarrow> schedule r = [] \<and> metrics r = Map.empty)
         \<and> (ps \<noteq> [] \<longrightarrow>
              schedule r \<noteq> [] \<and> entry_start (hd (schedule r)) = 0
              \<and> entry_end (last (schedule r)) = total_time (schedule r)
              \<and> covers (schedule r) (total_time (schedule r))
              \<and> metrics r ''total_time'' = Some (round2 (total_time (schedule r))))"
proof (cases "ps = []")
  case True
  with assms(2) have "schedule r = []" "metrics r = Map.empty"
    using empty_input_result [of a r] by simp_all
  with True show ?thesis by (simp add: chronological_def)
next
  case False
  from assms(1) have pos: "\<forall>p\<in>set ps. 0 < burst_time p" by (simp add: valid_input_def)
  from nonempty_input_contiguous [OF assms(2) pos False] obtain t where
    c: "contiguous 0 (schedule r) t" and ne: "schedule r \<noteq> []"
    and m: "metrics r = calculate_metrics ps (schedule r)"
    by blast
  have "metrics r ''total_time'' = Some (round2 (total_time (schedule r)))"
    by (simp add: m calculate_metrics_def Let_def)
  with contiguous_summary [OF c ne] ne False show ?thesis by simp
qed

theorem schedules_chronological_witness:
  "valid_input (RR 2) [new_Process ''P1'' 0 3 None, new_Process ''P2'' 5 2 None]
   \<and> map_option (map_sum id schedule)
       (run_algorithm (RR 2) [new_Process ''P1'' 0 3 None, new_Process ''P2'' 5 2 None])
     = Some (Inr [(''P1'', 0, 3), (''IDLE'', 3, 5), (''P2'', 5, 7)])
   \<and> chronological [(''P1'', 0, 3), (''IDLE'', 3, 5), (''P2'', 5, 7)]
   \<and> total_time [(''P1'', 0, 3), (''IDLE'', 3, 5), (''P2'', 5, 7)] = 7
   \<and> covers [(''P1'', 0, 3), (''IDLE'', 3, 5), (''P2'', 5, 7)] 7"
proof -
  let ?ps = "[new_Process ''P1'' 0 3 None, new_Process ''P2'' 5 2 None]"
  let ?sched = "[(''P1'', 0, 3), (''IDLE'', 3, 5), (''P2'', 5, 7)] :: entry list"
  let ?r = "\<lparr>schedule = ?sched, metrics = calculate_metrics ?ps ?sched,
             algorithm_name = RoundRobinQuantum 2\<rparr>"
  have v: "valid_input (RR 2) ?ps" by (simp add: valid_input_def new_Process_def)
  have procs: "sort_key by_arrival (copy_processes ?ps) = ?ps"
    by (simp add: new_Process_def copy_processes_def copy_process_def by_arrival_def)
  have loop: "map_option (\<lambda>s. (rr_status s, rr_schedule s))
                (while_option (rr_cond ?ps) (rr_step 2 ?ps) (rr_init ?ps))
              = Some (Running, ?sched)"
    by (simp add: eval_simps loop_simps)
  have run: "run_algorithm (RR 2) ?ps = Some (Inr ?r)"
    using loop by (auto simp: round_robin_def procs finish_def)
  have t: "total_time ?sched = 7" by (simp add: total_time_def)
  have ne: "?ps \<noteq> []" by simp
  have s: "schedule ?r = ?sched" by simp
  note th = schedules_chronological [OF v run, unfolded s t]
  from th have 1: "chronological ?sched" by (rule conjunct1)
  from th ne have 2: "covers ?sched 7" by blast
  have 3: "map_option (map_sum id schedule) (run_algorithm (RR 2) ?ps) = Some (Inr ?sched)"
    unfolding run by simp
  from v 1 2 3 t show ?thesis by (simp only: simp_thms)
qed

section \<open>One iteration of Round Robin\<close>















section \<open>The caller's objects\<close>

lemma admit_h_eq:
  "admit_h h push procs t i q =
     (foldl push q (takeWhile (\<lambda>r. arrival_time (h ! r) \<le> t) (drop i procs)),
      i + length (takeWhile (\<lambda>r. arrival_time (h ! r) \<le> t) (drop i procs)))"
proof (induction h push procs t i q rule: admit_h.induct)
  case (1 h push procs t i q)
  show ?case
  proof (cases "i < length procs \<and> arrival_time (h ! (procs ! i)) \<le> t")
    case True
    then have d: "drop i procs = procs ! i # drop (Suc i) procs"
      by (simp add: Cons_nth_drop_Suc)
    from True 1 show ?thesis
      by (subst admit_h.simps) (simp add: d)
  next
    case False
    then have "takeWhile (\<lambda>r. arrival_time (h ! r) \<le> t) (drop i procs) = []"
      by (cases "i < length procs") (auto simp: takeWhile_eq_Nil_iff hd_drop_conv_nth)
    with False show ?thesis by (subst admit_h.simps) auto
  qed
qed

lemma set_foldl_rh_append: "set (foldl rh_append q xs) = set q \<union> set xs"
  by (induction xs arbitrary: q) (auto simp: rh_append_def)

lemma take_alloc: "alloc_copies h rs = (h1, cs) \<Longrightarrow> take (length h) h1 = h"
  by (auto simp: alloc_copies_def)

lemma fresh_alloc: "alloc_copies h rs = (h1, cs) \<Longrightarrow> \<forall>r\<in>set cs. length h \<le> r"
  by (auto simp: alloc_copies_def)

lemma take_execute_h:
  assumes "execute_h h c tq = (e, h')" and "n \<le> c"
  shows "take n h' = take n h"
  using assms by (auto simp: execute_h_def split: prod.splits)

lemma p_select_h_refs:
  assumes fr: "ph_frame h0 s" and fresh: "\<forall>r\<in>set procs. length h0 \<le> r"
    and sel: "p_select_h keyf procs s = (rq3, i1, cur)"
  shows "\<forall>x\<in>set rq3. length h0 \<le> snd (snd x)" and "\<And>c. cur = Some c \<Longrightarrow> length h0 \<le> c"
proof -
  let ?h = "ph_store s"
  let ?push = "\<lambda>q r. heappush q (keyf (?h ! r), pid (?h ! r), r)"
  let ?tw = "takeWhile (\<lambda>r. arrival_time (?h ! r) \<le> ph_time s) (drop (ph_idx s) procs)"
  define rq1 where "rq1 = foldl ?push (ph_ready s) ?tw"
  have adm: "admit_h ?h ?push procs (ph_time s) (ph_idx s) (ph_ready s)
               = (rq1, ph_idx s + length ?tw)"
    by (simp add: admit_h_eq rq1_def)
  have set1: "set rq1 = set (ph_ready s) \<union> (\<lambda>r. (keyf (?h ! r), pid (?h ! r), r)) ` set ?tw"
    unfolding rq1_def by (rule set_foldl_heappush)
  have f1: "\<forall>x\<in>set rq1. length h0 \<le> snd (snd x)"
    using fr fresh set_admitted [of "\<lambda>r. arrival_time (?h ! r) \<le> ph_time s" "ph_idx s" procs]
    by (auto simp: set1 ph_frame_def)
  from fr have fc: "\<And>c. ph_current s = Some c \<Longrightarrow> length h0 \<le> c"
    by (simp add: ph_frame_def)
  show "\<forall>x\<in>set rq3. length h0 \<le> snd (snd x)"
  proof (cases "heappop rq1")
    case None
    with sel f1 fc show ?thesis
      by (auto simp: p_select_h_def adm Let_def split: option.splits if_splits)
  next
    case (Some a)
    obtain m rest where a: "a = (m, rest)" by (cases a)
    from heappop_Some [OF Some [unfolded a]] f1
    have "\<forall>x\<in>set rest. length h0 \<le> snd (snd x)" by auto
    with sel Some a fc show ?thesis
      by (auto simp: p_select_h_def adm Let_def split: option.splits if_splits prod.splits)
  qed
  show "length h0 \<le> c" if "cur = Some c" for c
  proof (cases "heappop rq1")
    case None
    with sel fc that show ?thesis
      by (auto simp: p_select_h_def adm Let_def split: option.splits if_splits)
  next
    case (Some a)
    obtain m rest where a: "a = (m, rest)" by (cases a)
    obtain k i r where m: "m = (k, i, r)" by (cases m)
    from heappop_Some(1) [OF Some [unfolded a]] f1 have "length h0 \<le> r"
      by (auto simp: m)
    with sel Some a m fc that show ?thesis
      by (auto simp: p_select_h_def adm Let_def split: option.splits if_splits)
  qed
qed

lemma p_step_h_frame:
  assumes fr: "ph_frame h0 s" and fresh: "\<forall>r\<in>set procs. length h0 \<le> r"
  shows "ph_frame h0 (p_step_h keyf procs s)"
proof -
  obtain rq3 i1 cur where sel: "p_select_h keyf procs s = (rq3, i1, cur)"
    by (cases "p_select_h keyf procs s") auto
  note refs = p_select_h_refs [OF fr fresh sel]
  from fr have tk: "take (length h0) (ph_store s) = h0" by (simp add: ph_frame_def)
  show ?thesis
  proof (cases cur)
    case None
    with sel refs(1) tk show ?thesis by (simp add: p_step_h_def ph_frame_def)
  next
    case (Some c)
    obtain e h' where ex: "execute_h (ph_store s) c 1 = (e, h')"
      by (cases "execute_h (ph_store s) c 1") auto
    from take_execute_h [OF ex refs(2) [OF Some]] tk have "take (length h0) h' = h0" by simp
    with Some sel ex refs(1) refs(2) [OF Some] show ?thesis
      by (simp add: p_step_h_def ph_frame_def Let_def)
  qed
qed

lemma rr_run_h_frame:
  assumes tk: "take (length h0) (rh_store s) = h0" and q: "\<forall>c\<in>set q. length h0 \<le> c"
    and fresh: "\<forall>r\<in>set procs. length h0 \<le> r"
  shows "rh_frame h0 (rr_run_h time_quantum procs sched t q i s)"
proof (cases q)
  case Nil
  with tk show ?thesis by (simp add: rr_run_h_def rh_frame_def)
next
  case (Cons c rest)
  obtain e h' where ex: "execute_h (rh_store s) c time_quantum = (e, h')"
    by (cases "execute_h (rh_store s) c time_quantum") auto
  from q Cons have c: "length h0 \<le> c" and rest: "\<forall>x\<in>set rest. length h0 \<le> x" by simp_all
  from take_execute_h [OF ex c] tk have tk': "take (length h0) h' = h0" by simp
  obtain q' i' where adm: "admit_h h' rh_append procs (t + e) i rest = (q', i')"
    by (cases "admit_h h' rh_append procs (t + e) i rest") auto
  then have "set q' \<subseteq> set rest \<union> set procs"
    using set_admitted [of "\<lambda>r. arrival_time (h' ! r) \<le> t + e" i procs]
    by (auto simp: admit_h_eq set_foldl_rh_append)
  with rest fresh have q': "\<forall>x\<in>set q'. length h0 \<le> x" by auto
  from Cons ex adm tk' q' c show ?thesis
    by (simp add: rr_run_h_def rh_frame_def Let_def rh_append_def)
qed

lemma rr_step_h_frame:
  assumes fr: "rh_frame h0 s" and fresh: "\<forall>r\<in>set procs. length h0 \<le> r"
  shows "rh_frame h0 (rr_step_h time_quantum procs s)"
proof -
  from fr have tk: "take (length h0) (rh_store s) = h0"
    and q: "\<forall>c\<in>set (rh_ready s). length h0 \<le> c"
    by (simp_all add: rh_frame_def)
  show ?thesis
  proof (cases "rh_ready s = []")
    case False
    then show ?thesis
      using rr_run_h_frame [OF tk q fresh] by (simp add: rr_step_h_def)
  next
    case True
    show ?thesis
    proof (cases "rh_idx s < length procs")
      case False
      with True fr show ?thesis by (simp add: rr_step_h_def rh_frame_def)
    next
      case idx: True
      define n where "n = arrival_time (rh_store s ! (procs ! rh_idx s))"
      obtain q1 i1 where adm: "admit_h (rh_store s) rh_append procs n (rh_idx s) (rh_ready s) = (q1, i1)"
        by (cases "admit_h (rh_store s) rh_append procs n (rh_idx s) (rh_ready s)") auto
      then have "set q1 \<subseteq> set (rh_ready s) \<union> set procs"
        using set_admitted [of "\<lambda>r. arrival_time (rh_store s ! r) \<le> n" "rh_idx s" procs]
        by (auto simp: admit_h_eq set_foldl_rh_append)
      with q fresh have q1: "\<forall>x\<in>set q1. length h0 \<le> x" by auto
      from True idx adm show ?thesis
        using rr_run_h_frame [OF tk q1 fresh]
        by (simp add: rr_step_h_def Let_def n_def)
    qed
  qed
qed

lemma rh_init_frame:
  assumes tk: "take (length h0) h1 = h0" and fresh: "\<forall>r\<in>set procs. length h0 \<le> r"
  shows "rh_frame h0 (rh_init h1 procs)"
proof -
  obtain q i where adm: "admit_h h1 rh_append procs 0 0 [] = (q, i)"
    by (cases "admit_h h1 rh_append procs 0 0 ([] :: ref list)") auto
  then have "set q \<subseteq> set procs"
    using set_admitted [of "\<lambda>r. arrival_time (h1 ! r) \<le> 0" 0 procs]
    by (auto simp: admit_h_eq set_foldl_rh_append)
  with fresh tk adm show ?thesis by (auto simp: rh_init_def rh_frame_def)
qed

lemma preemptive_h_frame:
  assumes "preemptive_h keyf name h rs = Some (out, h')"
  shows "take (length h) h' = h"
proof -
  obtain h1 cs where al: "alloc_copies h rs = (h1, cs)" by (cases "alloc_copies h rs") auto
  let ?procs = "sort_key (\<lambda>r. by_arrival (h1 ! r)) cs"
  from assms al obtain s where
    w: "while_option (ph_cond ?procs) (p_step_h keyf ?procs) (ph_init h1) = Some s"
    and h': "h' = ph_store s"
    by (auto simp: preemptive_h_def Let_def)
  have fresh: "\<forall>r\<in>set ?procs. length h \<le> r" using fresh_alloc [OF al] by simp
  have "ph_frame h s"
  proof (rule while_option_rule [where P = "ph_frame h", OF _ w])
    show "ph_frame h (ph_init h1 :: 'a ph_state)"
      by (simp add: ph_frame_def ph_init_def take_alloc [OF al])
  next
    fix s :: "'a ph_state" assume "ph_frame h s"
    then show "ph_frame h (p_step_h keyf ?procs s)" by (rule p_step_h_frame [OF _ fresh])
  qed
  then show ?thesis by (simp add: ph_frame_def h')
qed

lemma round_robin_h_frame:
  assumes "round_robin_h h rs time_quantum = Some (out, h')"
  shows "take (length h) h' = h"
proof (cases "rs = [] \<or> time_quantum \<le> 0")
  case True
  with assms show ?thesis by (auto simp: round_robin_h_def split: if_splits)
next
  case False
  obtain h1 cs where al: "alloc_copies h rs = (h1, cs)" by (cases "alloc_copies h rs") auto
  let ?procs = "sort_key (\<lambda>r. by_arrival (h1 ! r)) cs"
  from assms al False obtain s where
    w: "while_option (rh_cond ?procs) (rr_step_h time_quantum ?procs) (rh_init h1 ?procs) = Some s"
    and h': "h' = rh_store s"
    by (auto simp: round_robin_h_def Let_def)
  have fresh: "\<forall>r\<in>set ?procs. length h \<le> r" using fresh_alloc [OF al] by simp
  have "rh_frame h s"
  proof (rule while_option_rule [where P = "rh_frame h", OF _ w])
    show "rh_frame h (rh_init h1 ?procs)"
      by (rule rh_init_frame [OF take_alloc [OF al] fresh])
  next
    fix s assume "rh_frame h s"
    then show "rh_frame h (rr_step_h time_quantum ?procs s)"
      by (rule rr_step_h_frame [OF _ fresh])
  qed
  then show ?thesis by (simp add: rh_frame_def h')
qed

lemma non_preemptive_h_frame:
  assumes "non_preemptive_h keyf name h rs = Some (out, h')"
  shows "take (length h) h' = h"
  using assms by (auto simp: non_preemptive_h_def alloc_copies_def Let_def)

lemma run_algorithm_h_frame:
  assumes "run_algorithm_h a h rs = Some (out, h')"
  shows "take (length h) h' = h"
proof (cases a)
  case FCFS
  with assms show ?thesis by (auto simp: fcfs_scheduling_h_def Let_def split: if_splits)
next
  case SJF_NP
  with assms show ?thesis by (auto dest: non_preemptive_h_frame split: if_splits)
next
  case SJF_P
  with assms show ?thesis by (auto dest: preemptive_h_frame split: if_splits)
next
  case PRIORITY_NP
  with assms show ?thesis
    by (auto dest: non_preemptive_h_frame split: if_splits option.splits)
next
  case PRIORITY_P
  with assms show ?thesis
    by (auto dest: preemptive_h_frame split: if_splits option.splits)
next
  case (RR q)
  with assms show ?thesis by (auto dest: round_robin_h_frame)
qed

text \<open>
  C9. Whatever the algorithm and the input, when the call returns or raises, every object
  that existed before the call, the caller's processes among them, is in the store exactly
  as it was: no field of it has changed.
\<close>

theorem caller_objects_unchanged:
  assumes "run_algorithm_h a h processes = Some (outcome, h')"
  shows "length h \<le> length h' \<and> (\<forall>r<length h. h' ! r = h ! r)"
proof -
  have tk: "take (length h) h' = h" by (rule run_algorithm_h_frame [OF assms])
  then have "length (take (length h) h') = length h" by simp
  then have len: "length h \<le> length h'" by simp
  have "h' ! r = h ! r" if "r < length h" for r
  proof -
    have "take (length h) h' ! r = h' ! r" using that by simp
    with tk show ?thesis by simp
  qed
  with len show ?thesis by simp
qed

lemmas heap_simps =
  alloc_copies_def execute_h_def admit_h.simps ph_init_def ph_cond_def p_select_h_def
  p_step_h_def rh_append_def rh_init_def rh_cond_def rr_run_h_def rr_step_h_def

theorem caller_objects_unchanged_witness:
  "map_option snd
     (run_algorithm_h (RR 2) [new_Process ''P1'' 0 3 None, new_Process ''P2'' 1 1 None] [0, 1])
     = Some [new_Process ''P1'' 0 3 None, new_Process ''P2'' 1 1 None,
             (new_Process ''P1'' 0 3 None)\<lparr>remaining_time := 0\<rparr>,
             (new_Process ''P2'' 1 1 None)\<lparr>remaining_time := 0\<rparr>]
   \<and> [new_Process ''P1'' 0 3 None, new_Process ''P2'' 1 1 None,
       (new_Process ''P1'' 0 3 None)\<lparr>remaining_time := 0\<rparr>,
       (new_Process ''P2'' 1 1 None)\<lparr>remaining_time := 0\<rparr>] ! 0 = new_Process ''P1'' 0 3 None
   \<and> [new_Process ''P1'' 0 3 None, new_Process ''P2'' 1 1 None,
       (new_Process ''P1'' 0 3 None)\<lparr>remaining_time := 0\<rparr>,
       (new_Process ''P2'' 1 1 None)\<lparr>remaining_time := 0\<rparr>] ! 1 = new_Process ''P2'' 1 1 None"
proof -
  let ?h = "[new_Process ''P1'' 0 3 None, new_Process ''P2'' 1 1 None]"
  let ?h' = "[new_Process ''P1'' 0 3 None, new_Process ''P2'' 1 1 None,
             (new_Process ''P1'' 0 3 None)\<lparr>remaining_time := 0\<rparr>,
             (new_Process ''P2'' 1 1 None)\<lparr>remaining_time := 0\<rparr>]"
  let ?h1 = "[new_Process ''P1'' 0 3 None, new_Process ''P2'' 1 1 None,
              new_Process ''P1'' 0 3 None, new_Process ''P2'' 1 1 None]"
  have al: "alloc_copies ?h [0, 1] = (?h1, [2, 3])"
    by (simp add: alloc_copies_def copy_process_def new_Process_def upt_rec)
  have srt: "sort_key (\<lambda>r. by_arrival (?h1 ! r)) [2, 3] = [2, 3]"
    by (simp add: by_arrival_def new_Process_def)
  have loop: "map_option rh_store
                (while_option (rh_cond [2, 3]) (rr_step_h 2 [2, 3]) (rh_init ?h1 [2, 3]))
              = Some ?h'"
    by (simp add: heap_simps eval_simps)
  have "round_robin_h ?h [0, 1] 2 =
          map_option
            (\<lambda>s. (finish (map ((!) (rh_store s)) [0, 1]) (RoundRobinQuantum 2) (rh_status s)
                     (rh_schedule s), rh_store s))
            (while_option (rh_cond [2, 3]) (rr_step_h 2 [2, 3]) (rh_init ?h1 [2, 3]))"
    unfolding round_robin_h_def al prod.case Let_def srt by simp
  then have "map_option snd (round_robin_h ?h [0, 1] 2) =
          map_option rh_store
            (while_option (rh_cond [2, 3]) (rr_step_h 2 [2, 3]) (rh_init ?h1 [2, 3]))"
    by (simp add: map_option.compositionality o_def)
  with loop have ev: "map_option snd (run_algorithm_h (RR 2) ?h [0, 1]) = Some ?h'"
    by simp
  then obtain out where run: "run_algorithm_h (RR 2) ?h [0, 1] = Some (out, ?h')"
    by (cases "run_algorithm_h (RR 2) ?h [0, 1]") auto
  from caller_objects_unchanged [OF run] have "?h' ! 0 = ?h ! 0" "?h' ! 1 = ?h ! 1"
    by simp_all
  with ev show ?thesis by simp
qed

end
